theory Spec2Isabelle
  imports Main "HOL-Library.Monad_Syntax"
begin

section \<open>Data model\<close>

text \<open>
  The repository holds two variants of one script: \<open>src/index.js\<close> and
  \<open>src/unnamed/part_000\<close>. Their engine code is the same text except for the value of
  \<open>COLOR_BACKGROUND\<close>, the palette \<open>colors\<close>, and \<open>dropSelectedBlock\<close> together with the
  \<open>selectionMoved\<close> flag (which only \<open>index.js\<close> has). Every definition below takes the
  variant as its first argument where the two texts differ.
\<close>

datatype variant = IndexJs | Part000

abbreviation WIDTH :: int where "WIDTH \<equiv> 10"
abbreviation HEIGHT :: int where "HEIGHT \<equiv> 20"
abbreviation CELL_SIZE :: int where "CELL_SIZE \<equiv> 35"
abbreviation MAX_BLOCK_SPAWN :: int where "MAX_BLOCK_SPAWN \<equiv> 7"
abbreviation FALL_ANIMATION_PER_ROW :: int where "FALL_ANIMATION_PER_ROW \<equiv> 120"
abbreviation MIN_FALL_DURATION :: int where "MIN_FALL_DURATION \<equiv> 120"

fun COLOR_BACKGROUND :: "variant \<Rightarrow> string" where
  "COLOR_BACKGROUND IndexJs = ''black''"
| "COLOR_BACKGROUND Part000 = ''#1b1f32''"

abbreviation BORDER_SELECTED :: "variant \<Rightarrow> string" where
  "BORDER_SELECTED v \<equiv> (case v of IndexJs \<Rightarrow> ''#5de6ff'' | Part000 \<Rightarrow> ''#7bdff2'')"

fun colors :: "variant \<Rightarrow> string list" where
  "colors IndexJs = [''green'', ''white'', ''blue'', COLOR_BACKGROUND IndexJs]"
| "colors Part000 =
     [''#8ab6f9'', ''#f5b0e3'', ''#9fd8c0'', ''#f8d89e'', COLOR_BACKGROUND Part000]"

text \<open>A cell is the object \<open>{ color, blockId }\<close>; \<open>blockId\<close> is a number or \<open>null\<close>.\<close>

datatype cell = Cell (color: string) (blockId: "nat option")

text \<open>Grid coordinates \<open>{x, y}\<close> are JavaScript numbers that hold integers; they can be
  negative (a neighbour of column 0, a drag offset to the left).\<close>

type_synonym pos = "int \<times> int"

record selection =
  sel_color :: string
  sel_blockId :: "nat option"
  baseCells :: "pos list"
  sel_cells :: "pos list"
  offset :: int
  pointerStartX :: int

record hover =
  hov_color :: string
  hov_blockId :: "nat option"
  hov_cells :: "pos list"

record move =
  mv_cells :: "pos list"
  mv_color :: string
  mv_blockId :: "nat option"
  dropDistance :: int

text \<open>
  The closures stored by the script are of three shapes only, so they are represented by
  their captured variables:
  \<^item> \<open>onComplete\<close> is \<open>null\<close> or \<open>() => { if (shouldSpawn) spawnBlocks(); }\<close>;
  \<^item> a continuation in \<open>fallingAnimation.after\<close> is
    \<open>() => settleBoard({ animate: true, onComplete })\<close>;
  \<^item> \<open>finalize\<close> is
    \<open>() => finalizePlacement(cells, color, blockId, dropDistance, shouldSpawn)\<close>.
\<close>

datatype onComplete = SpawnIf bool

datatype continuation = SettleAnimated "onComplete option"

datatype finalizer = FinalizePlacement "pos list" string "nat option" int bool

record animation =
  moves :: "move list"
  finalize :: "finalizer option"
  after :: "continuation list"
  strokeStyle :: "string option"
  startTime :: "int option"
  duration :: int

record placement =
  pl_cells :: "pos list"
  pl_color :: string
  pl_blockId :: "nat option"
  pl_dropDistance :: int
  shouldSpawn :: bool

text \<open>
  The global variables of the script. \<open>randomSource\<close> stands for \<open>Math.random\<close>: the list
  holds the draws still to come, and an exhausted list keeps answering 0, so a list denotes
  an infinite sequence of draws and every run (which consumes finitely many) is covered by
  some list. \<open>selectionMoved\<close> exists in \<open>index.js\<close> only; the other variant never reads it.
\<close>

record state =
  grid :: "cell list"
  topLine :: int
  selectedBlock :: "selection option"
  hoveredBlock :: "hover option"
  score :: nat
  nextRow :: "cell list option"
  selectionMoved :: bool
  fallingAnimation :: "animation option"
  blockCounter :: nat
  randomSource :: "nat list"

section \<open>Cells and the flat grid\<close>

definition idx :: "int \<Rightarrow> int \<Rightarrow> int" where
  "idx x y = y * WIDTH + x"

text \<open>Reads and writes of \<open>grid[idx(x, y)]\<close>. Every access of the script is made with
  \<open>0 \<le> x < WIDTH\<close> and \<open>0 \<le> y < HEIGHT\<close> on an array of \<open>WIDTH * HEIGHT\<close> cells.\<close>

definition gridAt :: "cell list \<Rightarrow> int \<Rightarrow> int \<Rightarrow> cell" where
  "gridAt g x y = g ! nat (idx x y)"

definition gridSet :: "cell list \<Rightarrow> int \<Rightarrow> int \<Rightarrow> cell \<Rightarrow> cell list" where
  "gridSet g x y c = g[nat (idx x y) := c]"

definition makeCell :: "string \<Rightarrow> nat option \<Rightarrow> cell" where
  "makeCell col bid = Cell col bid"

definition copyCell :: "cell \<Rightarrow> cell" where
  "copyCell c = Cell (color c) (blockId c)"

definition isEmptyCell :: "variant \<Rightarrow> cell \<Rightarrow> bool" where
  "isEmptyCell v c = (color c = COLOR_BACKGROUND v)"

definition emptyCell :: "variant \<Rightarrow> cell" where
  "emptyCell v = makeCell (COLOR_BACKGROUND v) None"

definition nextBlockId :: "state \<Rightarrow> nat \<times> state" where
  "nextBlockId s = (blockCounter s + 1, s\<lparr>blockCounter := blockCounter s + 1\<rparr>)"

text \<open>\<open>Math.floor(Math.random() * n)\<close>: the next draw, reduced to \<open>0 .. n - 1\<close>.\<close>

definition randomBelow :: "nat \<Rightarrow> state \<Rightarrow> nat \<times> state" where
  "randomBelow n s =
     (case randomSource s of
        [] \<Rightarrow> (0, s)
      | r # rs \<Rightarrow> (r mod n, s\<lparr>randomSource := rs\<rparr>))"

section \<open>Locating a block: \<open>collectBlockCells\<close>\<close>

text \<open>One neighbour of the inner \<open>for\<close> loop: skipped when its key is in \<open>seen\<close>, pushed
  otherwise. The stack \<open>toVisit\<close> is a list whose head is the top (\<open>pop\<close> takes the element
  pushed last).\<close>

definition visitNeighbor :: "pos list \<times> pos set \<Rightarrow> pos \<Rightarrow> pos list \<times> pos set" where
  "visitNeighbor st n =
     (if n \<in> snd st then st else (n # fst st, insert n (snd st)))"

definition neighbors :: "int \<Rightarrow> int \<Rightarrow> pos list" where
  "neighbors x y = [(x + 1, y), (x - 1, y), (x, y + 1), (x, y - 1)]"

definition floodRegion :: "pos set" where
  "floodRegion = {-1 .. WIDTH} \<times> {-1 .. HEIGHT}"

lemma finite_floodRegion: "finite floodRegion"
  by (simp add: floodRegion_def)

lemma neighbors_region:
  "0 \<le> x \<Longrightarrow> x < WIDTH \<Longrightarrow> 0 \<le> y \<Longrightarrow> y < HEIGHT \<Longrightarrow> set (neighbors x y) \<subseteq> floodRegion"
  by (auto simp: neighbors_def floodRegion_def)

lemma visitNeighbor_measure:
  assumes "n \<in> floodRegion"
  shows "2 * card (floodRegion - snd (visitNeighbor st n)) + length (fst (visitNeighbor st n))
           \<le> 2 * card (floodRegion - snd st) + length (fst st)"
proof (cases "n \<in> snd st")
  case True
  then show ?thesis by (simp add: visitNeighbor_def)
next
  case False
  have fin: "finite (floodRegion - snd st)" using finite_floodRegion by simp
  have mem: "n \<in> floodRegion - snd st" using assms False by simp
  have "floodRegion - insert n (snd st) = (floodRegion - snd st) - {n}" by auto
  then have "card (floodRegion - insert n (snd st)) = card (floodRegion - snd st) - 1"
    using fin mem by simp
  moreover have "card (floodRegion - snd st) \<ge> 1"
    using fin mem by (metis One_nat_def Suc_leI card_gt_0_iff empty_iff)
  ultimately show ?thesis using False by (simp add: visitNeighbor_def)
qed

lemma foldl_visitNeighbor_measure:
  "set ns \<subseteq> floodRegion \<Longrightarrow>
   2 * card (floodRegion - snd (foldl visitNeighbor st ns)) + length (fst (foldl visitNeighbor st ns))
     \<le> 2 * card (floodRegion - snd st) + length (fst st)"
proof (induction ns arbitrary: st)
  case Nil
  then show ?case by simp
next
  case (Cons n ns)
  have "2 * card (floodRegion - snd (foldl visitNeighbor (visitNeighbor st n) ns))
          + length (fst (foldl visitNeighbor (visitNeighbor st n) ns))
        \<le> 2 * card (floodRegion - snd (visitNeighbor st n)) + length (fst (visitNeighbor st n))"
    using Cons by simp
  also have "\<dots> \<le> 2 * card (floodRegion - snd st) + length (fst st)"
    using Cons.prems by (intro visitNeighbor_measure) simp
  finally show ?case by simp
qed

function flood :: "cell list \<Rightarrow> nat option \<Rightarrow> pos list \<Rightarrow> pos set \<Rightarrow> pos list \<Rightarrow> pos list" where
  "flood g bid [] seen cells = cells"
| "flood g bid ((x, y) # toVisit) seen cells =
     (if x < 0 \<or> x \<ge> WIDTH \<or> y < 0 \<or> y \<ge> HEIGHT then flood g bid toVisit seen cells
      else if blockId (gridAt g x y) \<noteq> bid then flood g bid toVisit seen cells
      else flood g bid (fst (foldl visitNeighbor (toVisit, seen) (neighbors x y)))
                       (snd (foldl visitNeighbor (toVisit, seen) (neighbors x y)))
                       (cells @ [(x, y)]))"
  by pat_completeness auto
termination
proof (relation "measure (\<lambda>(g, bid, toVisit, seen, cells).
                    2 * card (floodRegion - seen) + length toVisit)", goal_cases)
  case 1
  then show ?case by simp
next
  case (2 g bid x y toVisit seen cells)
  then show ?case by simp
next
  case (3 g bid x y toVisit seen cells)
  then show ?case by simp
next
  case (4 g bid x y toVisit seen cells)
  then have "set (neighbors x y) \<subseteq> floodRegion"
    by (intro neighbors_region) auto
  from foldl_visitNeighbor_measure[OF this, of "(toVisit, seen)"]
  show ?case by simp
qed

declare flood.simps [simp del]

definition collectBlockCells :: "cell list \<Rightarrow> int \<Rightarrow> int \<Rightarrow> nat option \<Rightarrow> pos list" where
  "collectBlockCells g startX startY bid =
     (case bid of
        None \<Rightarrow> []
      | Some b \<Rightarrow> flood g (Some b) [(startX, startY)] {(startX, startY)} [])"

section \<open>Rows: \<open>moveBlocksUp\<close> and \<open>generateNextRow\<close>\<close>

definition moveBlocksUp :: "variant \<Rightarrow> state \<Rightarrow> state" where
  "moveBlocksUp v s =
     (let g1 = foldl (\<lambda>g y. foldl (\<lambda>g x. gridSet g x (y - 1) (copyCell (gridAt g x y)))
                                 g [0 .. WIDTH - 1])
                     (grid s) [1 .. HEIGHT - 1];
          g2 = foldl (\<lambda>g x. gridSet g x (HEIGHT - 1) (makeCell (COLOR_BACKGROUND v) None))
                     g1 [0 .. WIDTH - 1]
      in s\<lparr>topLine := topLine s + 1, grid := g2\<rparr>)"

text \<open>The inner loop \<open>for (bx = 0; bx < len && x + bx < WIDTH; bx++) row[x + bx] = ...\<close>.
  The second loop condition is monotone in \<open>bx\<close>, so guarding each write is the same as
  leaving the loop.\<close>

definition writeSegment :: "cell list \<Rightarrow> int \<Rightarrow> int \<Rightarrow> cell \<Rightarrow> cell list" where
  "writeSegment row x len c =
     foldl (\<lambda>r bx. if x + bx < WIDTH then r[nat (x + bx) := c] else r) row [0 .. len - 1]"

function genLoop :: "variant \<Rightarrow> cell list \<Rightarrow> int \<Rightarrow> int \<Rightarrow> state \<Rightarrow> cell list \<times> state" where
  "genLoop v row spawned x s =
     (if x < WIDTH \<and> spawned < MAX_BLOCK_SPAWN then
        (let maxLen = min 4 (min (MAX_BLOCK_SPAWN - spawned) (WIDTH - x)) in
         if maxLen \<le> 0 then (row, s)
         else
           (let (ci, s1) = randomBelow (length (colors v)) s;
                col = colors v ! ci;
                (li, s2) = randomBelow (nat maxLen) s1;
                len = 1 + int li;
                (bid, s3) = (if col = COLOR_BACKGROUND v then (None, s2)
                             else (let (k, s') = nextBlockId s2 in (Some k, s')));
                row' = writeSegment row x len
                         (if col = COLOR_BACKGROUND v then makeCell (COLOR_BACKGROUND v) None
                          else makeCell col bid)
            in genLoop v row' (if col \<noteq> COLOR_BACKGROUND v then spawned + len else spawned)
                 (x + len) s3))
      else (row, s))"
  by pat_completeness auto
termination
  by (relation "measure (\<lambda>(v, row, spawned, x, s). nat (WIDTH - x))") auto

declare genLoop.simps [simp del]

definition generateNextRow :: "variant \<Rightarrow> state \<Rightarrow> cell list \<times> state" where
  "generateNextRow v s =
     genLoop v (replicate (nat WIDTH) (makeCell (COLOR_BACKGROUND v) None)) 0 0 s"

definition cloneGridCells :: "cell list \<Rightarrow> cell list" where
  "cloneGridCells sourceGrid = map copyCell sourceGrid"

definition restoreGridFromSnapshot :: "cell list \<Rightarrow> state \<Rightarrow> state" where
  "restoreGridFromSnapshot snapshotGrid s =
     s\<lparr>grid := foldl (\<lambda>g i. g[i := copyCell (snapshotGrid ! i)]) (grid s) [0 ..< length (grid s)]\<rparr>"

text \<open>The loop \<open>for (x = 0; x < WIDTH; x++) grid[idx(x, HEIGHT - 1)] = copyCell(row[x])\<close> of
  \<open>rowWouldClearLines\<close> and \<open>spawnBlocks\<close>.\<close>

definition insertBottomRow :: "cell list \<Rightarrow> state \<Rightarrow> state" where
  "insertBottomRow row s =
     s\<lparr>grid := foldl (\<lambda>g x. gridSet g x (HEIGHT - 1) (copyCell (row ! nat x)))
                      (grid s) [0 .. WIDTH - 1]\<rparr>"

section \<open>Drag: \<open>canPlaceOffset\<close>, \<open>applyOffset\<close>\<close>

fun canPlaceOffset :: "variant \<Rightarrow> cell list \<Rightarrow> pos list \<Rightarrow> int \<Rightarrow> bool" where
  "canPlaceOffset v g [] off = True"
| "canPlaceOffset v g ((x, y) # cs) off =
     (if x + off < 0 \<or> x + off \<ge> WIDTH then False
      else if \<not> isEmptyCell v (gridAt g (x + off) y) then False
      else canPlaceOffset v g cs off)"

text \<open>The loop \<open>while (newOffset !== offset)\<close> of \<open>applyOffset\<close>. A loop that does not
  return is \<open>None\<close>.\<close>

partial_function (option) walkOffset ::
  "variant \<Rightarrow> cell list \<Rightarrow> pos list \<Rightarrow> int \<Rightarrow> int \<Rightarrow> int \<Rightarrow> int option" where
  "walkOffset v g base direction target newOffset =
     (if newOffset \<noteq> target then
        (if \<not> canPlaceOffset v g base (newOffset + direction) then Some newOffset
         else walkOffset v g base direction target (newOffset + direction))
      else Some newOffset)"

declare walkOffset.simps [code]

definition applyOffset :: "variant \<Rightarrow> int \<Rightarrow> state \<Rightarrow> state option" where
  "applyOffset v off s =
     (case selectedBlock s of
        None \<Rightarrow> Some s
      | Some sel \<Rightarrow>
          if off = offset sel then Some s
          else do {
            newOffset \<leftarrow> walkOffset v (grid s) (baseCells sel)
                           (if off > offset sel then 1 else -1) off (offset sel);
            if newOffset = offset sel then Some s
            else Some (s\<lparr>selectedBlock :=
                            Some (sel\<lparr>offset := newOffset,
                                      sel_cells := map (\<lambda>(x, y). (x + newOffset, y)) (baseCells sel)\<rparr>),
                         selectionMoved := (case v of IndexJs \<Rightarrow> True | Part000 \<Rightarrow> selectionMoved s)\<rparr>)
          })"

text \<open>\<open>Math.round\<close> of a quotient of integers: \<open>floor(a / b + 1/2)\<close>.\<close>

definition roundDiv :: "int \<Rightarrow> int \<Rightarrow> int" where
  "roundDiv a b = (2 * a + b) div (2 * b)"

text \<open>The pointer position handed to the handlers is \<open>getPointerPosition(evt)\<close>, taken here in
  whole logical pixels; the mapping from device coordinates is outside the engine.\<close>

definition handleDrag :: "variant \<Rightarrow> int \<Rightarrow> state \<Rightarrow> state option" where
  "handleDrag v pointerX s =
     (case selectedBlock s of
        None \<Rightarrow> Some s
      | Some sel \<Rightarrow> applyOffset v (roundDiv (pointerX - pointerStartX sel) CELL_SIZE) s)"

definition trySelectBlock :: "variant \<Rightarrow> int \<Rightarrow> int \<Rightarrow> int \<Rightarrow> state \<Rightarrow> state" where
  "trySelectBlock v button pointerX pointerY s =
     (if selectedBlock s \<noteq> None \<or> fallingAnimation s \<noteq> None then s
      else if button \<noteq> 0 then s
      else
        (let cellX = pointerX div CELL_SIZE; cellY = pointerY div CELL_SIZE in
         if cellX < 0 \<or> cellX \<ge> WIDTH \<or> cellY < 0 \<or> cellY \<ge> HEIGHT then s
         else
           (let startCell = gridAt (grid s) cellX cellY in
            if isEmptyCell v startCell then s
            else
              (let cells = collectBlockCells (grid s) cellX cellY (blockId startCell) in
               if cells = [] then s
               else s\<lparr>grid := foldl (\<lambda>g (x, y). gridSet g x y (makeCell (COLOR_BACKGROUND v) None))
                                     (grid s) cells,
                      selectedBlock := Some \<lparr>sel_color = color startCell,
                                              sel_blockId = blockId startCell,
                                              baseCells = cells, sel_cells = cells,
                                              offset = 0, pointerStartX = pointerX\<rparr>,
                      hoveredBlock := None,
                      selectionMoved := (case v of IndexJs \<Rightarrow> False | Part000 \<Rightarrow> selectionMoved s)\<rparr>))))"

section \<open>Drop distance\<close>

text \<open>The \<open>for\<close> loop inside \<open>outer: while (true)\<close>: true when some cell makes the loop
  \<open>break outer\<close> at this distance. The same loop text occurs in \<open>applyGravity\<close> and in
  \<open>computeDropDistance\<close>.\<close>

fun dropBlocked :: "variant \<Rightarrow> cell list \<Rightarrow> pos list \<Rightarrow> int \<Rightarrow> bool" where
  "dropBlocked v g [] d = False"
| "dropBlocked v g ((x, y) # cs) d =
     (if y + d + 1 \<ge> HEIGHT then True
      else if \<not> isEmptyCell v (gridAt g x (y + d + 1)) then True
      else dropBlocked v g cs d)"

text \<open>\<open>outer: while (true) { ...; dropDistance++ }\<close>. With an empty cell list the inner loop
  never breaks and the loop does not return.\<close>

partial_function (option) dropLoop ::
  "variant \<Rightarrow> cell list \<Rightarrow> pos list \<Rightarrow> int \<Rightarrow> int option" where
  "dropLoop v g cells d =
     (if dropBlocked v g cells d then Some d else dropLoop v g cells (d + 1))"

declare dropLoop.simps [code]

definition computeDropDistance :: "variant \<Rightarrow> pos list \<Rightarrow> state \<Rightarrow> int option" where
  "computeDropDistance v cells s = dropLoop v (grid s) cells 0"

definition dropSelectedBlock :: "variant \<Rightarrow> state \<Rightarrow> (placement option \<times> state) option" where
  "dropSelectedBlock v s =
     (case selectedBlock s of
        None \<Rightarrow> Some (None, s)
      | Some sel \<Rightarrow> do {
          d \<leftarrow> computeDropDistance v (sel_cells sel) s;
          Some (Some \<lparr>pl_cells = sel_cells sel, pl_color = sel_color sel,
                      pl_blockId = sel_blockId sel, pl_dropDistance = d,
                      shouldSpawn = (case v of IndexJs \<Rightarrow> selectionMoved s
                                     | Part000 \<Rightarrow> offset sel \<noteq> 0)\<rparr>,
                s\<lparr>selectedBlock := None\<rparr>)
        })"

section \<open>Gravity\<close>

text \<open>The state of one sweep of \<open>applyGravity\<close>: the grid, \<open>processedBlocks\<close>, the collected
  \<open>moves\<close> and the flag \<open>moved\<close>.\<close>

type_synonym sweepState = "cell list \<times> nat set \<times> move list \<times> bool"

definition clearCells :: "variant \<Rightarrow> cell list \<Rightarrow> pos list \<Rightarrow> cell list" where
  "clearCells v g cells =
     foldl (\<lambda>g (x, y). gridSet g x y (makeCell (COLOR_BACKGROUND v) None)) g cells"

definition writeCells :: "cell list \<Rightarrow> pos list \<Rightarrow> int \<Rightarrow> string \<Rightarrow> nat option \<Rightarrow> cell list" where
  "writeCells g cells d col bid =
     foldl (\<lambda>g (x, y). gridSet g x (y + d) (makeCell col bid)) g cells"

text \<open>The body of the two nested \<open>for\<close> loops, at the grid position \<open>(x, y)\<close>.\<close>

definition gravityCell :: "variant \<Rightarrow> bool \<Rightarrow> pos \<Rightarrow> sweepState \<Rightarrow> sweepState option" where
  "gravityCell v collectMoves p st =
     (case (p, st) of ((x, y), (g, processedBlocks, mvs, moved)) \<Rightarrow>
        if isEmptyCell v (gridAt g x y) then Some st
        else
          (case blockId (gridAt g x y) of
             None \<Rightarrow> Some st
           | Some b \<Rightarrow>
               if b \<in> processedBlocks then Some st
               else
                 (let cells = collectBlockCells g x y (Some b) in
                  if cells = [] then Some st
                  else do {
                    d \<leftarrow> dropLoop v g cells 0;
                    if d = 0 then Some (g, insert b processedBlocks, mvs, moved)
                    else Some (writeCells (clearCells v g cells) cells d
                                 (color (gridAt g x y)) (Some b),
                               insert b processedBlocks,
                               (if collectMoves
                                then mvs @ [\<lparr>mv_cells = cells, mv_color = color (gridAt g x y),
                                             mv_blockId = Some b, dropDistance = d\<rparr>]
                                else mvs),
                               True)
                  })))"

fun sweep :: "variant \<Rightarrow> bool \<Rightarrow> pos list \<Rightarrow> sweepState \<Rightarrow> sweepState option" where
  "sweep v collectMoves [] st = Some st"
| "sweep v collectMoves (p # ps) st =
     (case gravityCell v collectMoves p st of
        None \<Rightarrow> None
      | Some st' \<Rightarrow> sweep v collectMoves ps st')"

text \<open>\<open>for (y = HEIGHT - 1; y >= 0; y--) for (x = 0; x < WIDTH; x++)\<close>.\<close>

definition scanOrder :: "pos list" where
  "scanOrder = concat (map (\<lambda>y. map (\<lambda>x. (x, y)) [0 .. WIDTH - 1]) (rev [0 .. HEIGHT - 1]))"

text \<open>\<open>do { ... } while (moved)\<close>; each round starts with a fresh \<open>processedBlocks\<close>.\<close>

partial_function (option) gravityLoop ::
  "variant \<Rightarrow> bool \<Rightarrow> cell list \<Rightarrow> move list \<Rightarrow> bool \<Rightarrow> (cell list \<times> move list \<times> bool) option" where
  "gravityLoop v collectMoves g mvs movedAny =
     (case sweep v collectMoves scanOrder (g, {}, mvs, False) of
        None \<Rightarrow> None
      | Some (g', processedBlocks, mvs', moved) \<Rightarrow>
          if moved then gravityLoop v collectMoves g' mvs' True
          else Some (g', mvs', movedAny))"

declare gravityLoop.simps [code]

text \<open>The result \<open>{ moved, moves }\<close> is the pair in the first component.\<close>

definition applyGravity :: "variant \<Rightarrow> bool \<Rightarrow> state \<Rightarrow> ((bool \<times> move list) \<times> state) option" where
  "applyGravity v collectMoves s =
     (if selectedBlock s \<noteq> None \<or> fallingAnimation s \<noteq> None then Some ((False, []), s)
      else
        (case gravityLoop v collectMoves (grid s) [] False of
           None \<Rightarrow> None
         | Some (g, mvs, movedAny) \<Rightarrow> Some ((movedAny, mvs), s\<lparr>grid := g\<rparr>)))"

section \<open>Line clearing\<close>

definition rowIsFull :: "variant \<Rightarrow> cell list \<Rightarrow> int \<Rightarrow> bool" where
  "rowIsFull v g y = list_all (\<lambda>x. \<not> isEmptyCell v (gridAt g x y)) [0 .. WIDTH - 1]"

definition clearRow :: "variant \<Rightarrow> cell list \<Rightarrow> int \<Rightarrow> cell list" where
  "clearRow v g y =
     foldl (\<lambda>g x. gridSet g x y (makeCell (COLOR_BACKGROUND v) None)) g [0 .. WIDTH - 1]"

definition clearLine :: "variant \<Rightarrow> cell list \<times> nat \<Rightarrow> int \<Rightarrow> cell list \<times> nat" where
  "clearLine v st y =
     (if \<not> rowIsFull v (fst st) y then st else (clearRow v (fst st) y, snd st + 1))"

definition clearFullLines :: "variant \<Rightarrow> state \<Rightarrow> nat \<times> state" where
  "clearFullLines v s =
     (let (g, cleared) = foldl (clearLine v) (grid s, 0) [0 .. HEIGHT - 1]
      in (cleared, (if cleared > 0 then s\<lparr>grid := g, hoveredBlock := None\<rparr> else s\<lparr>grid := g\<rparr>)))"

section \<open>Settling, the animation slot and row spawning\<close>

text \<open>\<open>options\<close> of \<open>startFallAnimation\<close> holds \<open>finalize\<close>, \<open>after\<close> and possibly the property
  \<open>strokeStyle\<close> (the outer \<open>None\<close> is the absent property).\<close>

definition startFallAnimation ::
  "variant \<Rightarrow> move list \<Rightarrow> finalizer option \<Rightarrow> continuation option \<Rightarrow> string option option
     \<Rightarrow> state \<Rightarrow> state" where
  "startFallAnimation v mvs fin aft stroke s =
     (if mvs = [] then s
      else
        (let maxDrop = foldl (\<lambda>mx m. max mx (dropDistance m)) 0 mvs
         in s\<lparr>fallingAnimation := Some
                 \<lparr>moves = mvs, finalize = fin,
                  after = (case aft of Some c \<Rightarrow> [c] | None \<Rightarrow> []),
                  strokeStyle = (case stroke of Some st \<Rightarrow> st | None \<Rightarrow> Some (BORDER_SELECTED v)),
                  startTime = None,
                  duration = max MIN_FALL_DURATION (maxDrop * FALL_ANIMATION_PER_ROW)\<rparr>\<rparr>))"

text \<open>The loop \<open>while (true) { applyGravity(); cleared = clearFullLines(); ... }\<close> of the
  unanimated branch of \<open>settleBoard\<close>.\<close>

partial_function (option) settleLoop :: "variant \<Rightarrow> state \<Rightarrow> nat \<Rightarrow> (nat \<times> state) option" where
  "settleLoop v s totalCleared =
     (case applyGravity v False s of
        None \<Rightarrow> None
      | Some (gravityResult, s1) \<Rightarrow>
          (case clearFullLines v s1 of
             (cleared, s2) \<Rightarrow>
               if cleared = 0 then Some (totalCleared, s2)
               else settleLoop v s2 (totalCleared + cleared)))"

declare settleLoop.simps [code]

text \<open>\<open>if (onComplete) onComplete()\<close>; \<open>spawn\<close> is what the call \<open>spawnBlocks()\<close> does.\<close>

definition runOnComplete ::
  "(state \<Rightarrow> state option) \<Rightarrow> onComplete option \<Rightarrow> state \<Rightarrow> state option" where
  "runOnComplete spawn oc s =
     (case oc of
        None \<Rightarrow> Some s
      | Some (SpawnIf b) \<Rightarrow> if b then spawn s else Some s)"

text \<open>
  \<open>settleBoard\<close> and \<open>spawnBlocks\<close> call each other: \<open>settleBoard\<close> runs \<open>onComplete\<close>, which may
  call \<open>spawnBlocks()\<close>, and \<open>spawnBlocks\<close> calls \<open>settleBoard\<close> without an \<open>onComplete\<close>. The
  body of \<open>settleBoard\<close> is therefore written once, over the meaning \<open>spawn\<close> of the call
  \<open>spawnBlocks()\<close>; \<open>spawnBlocks\<close> uses it with a \<open>spawn\<close> that is never run (its \<open>onComplete\<close>
  is \<open>null\<close>), and \<open>settleBoard\<close> proper uses it with \<open>spawnBlocks\<close>.
\<close>

partial_function (option) settleBoardWith ::
  "(state \<Rightarrow> state option) \<Rightarrow> variant \<Rightarrow> bool \<Rightarrow> onComplete option \<Rightarrow> state
     \<Rightarrow> (nat \<times> state) option" where
  "settleBoardWith spawn v animate oc s =
     (if \<not> animate then
        (case settleLoop v s 0 of
           None \<Rightarrow> None
         | Some (totalCleared, s1) \<Rightarrow>
             (case runOnComplete spawn oc
                     (if totalCleared \<noteq> 0 then s1\<lparr>score := score s1 + totalCleared\<rparr> else s1) of
                None \<Rightarrow> None
              | Some s' \<Rightarrow> Some (totalCleared, s')))
      else
        (case fallingAnimation s of
           Some a \<Rightarrow> Some (0, s\<lparr>fallingAnimation := Some (a\<lparr>after := after a @ [SettleAnimated oc]\<rparr>)\<rparr>)
         | None \<Rightarrow>
             (case applyGravity v True s of
                None \<Rightarrow> None
              | Some ((moved, mvs), s1) \<Rightarrow>
                  if mvs \<noteq> []
                  then Some (0, startFallAnimation v mvs None
                                  (Some (SettleAnimated oc)) (Some None)
                                  (s1\<lparr>hoveredBlock := None\<rparr>))
                  else
                    (case clearFullLines v s1 of
                       (cleared, s2) \<Rightarrow>
                         if cleared > 0
                         then settleBoardWith spawn v True oc (s2\<lparr>score := score s2 + cleared\<rparr>)
                         else
                           (case runOnComplete spawn oc s2 of
                              None \<Rightarrow> None
                            | Some s' \<Rightarrow> Some (0, s'))))))"

declare settleBoardWith.simps [code]

definition rowWouldClearLines ::
  "variant \<Rightarrow> cell list option \<Rightarrow> state \<Rightarrow> (bool \<times> state) option" where
  "rowWouldClearLines v row s =
     (case row of
        None \<Rightarrow> Some (False, s)
      | Some r \<Rightarrow>
          (let snapshotGrid = cloneGridCells (grid s);
               s1 = s\<lparr>hoveredBlock := None, selectedBlock := None, fallingAnimation := None\<rparr>;
               s2 = insertBottomRow r (moveBlocksUp v s1)
           in case settleBoardWith (\<lambda>_. None) v False None s2 of
                None \<Rightarrow> None
              | Some (cleared, s3) \<Rightarrow>
                  Some (cleared > 0,
                        (restoreGridFromSnapshot snapshotGrid s3)
                          \<lparr>topLine := topLine s, score := score s,
                           hoveredBlock := hoveredBlock s, selectedBlock := selectedBlock s,
                           fallingAnimation := fallingAnimation s\<rparr>)))"

text \<open>The assignment \<open>nextRow = generateNextRow()\<close>.\<close>

definition regenerateNextRow :: "variant \<Rightarrow> state \<Rightarrow> state" where
  "regenerateNextRow v s = (case generateNextRow v s of (row, s') \<Rightarrow> s'\<lparr>nextRow := Some row\<rparr>)"

text \<open>\<open>while (rowWouldClearLines(nextRow) && attempts < 20) { nextRow = generateNextRow();
  attempts++; }\<close> The probe is evaluated before the bound is tested.\<close>

partial_function (option) rerollLoop :: "variant \<Rightarrow> state \<Rightarrow> nat \<Rightarrow> (nat \<times> state) option" where
  "rerollLoop v s attempts =
     (case rowWouldClearLines v (nextRow s) s of
        None \<Rightarrow> None
      | Some (wouldClear, s1) \<Rightarrow>
          if wouldClear \<and> attempts < 20
          then rerollLoop v (regenerateNextRow v s1) (attempts + 1)
          else Some (attempts, s1))"

declare rerollLoop.simps [code]

definition spawnBlocks :: "variant \<Rightarrow> bool \<Rightarrow> state \<Rightarrow> state option" where
  "spawnBlocks v animateSettle s =
     (case rerollLoop v (if nextRow s = None then regenerateNextRow v s else s) 0 of
        None \<Rightarrow> None
      | Some (attempts, s1) \<Rightarrow>
          (let s2 = (if attempts \<ge> 20
                     then s1\<lparr>nextRow := Some (replicate (nat WIDTH)
                                                 (makeCell (COLOR_BACKGROUND v) None))\<rparr>
                     else s1);
               s3 = insertBottomRow (the (nextRow s2)) (moveBlocksUp v s2)
           in case settleBoardWith (\<lambda>_. None) v animateSettle None s3 of
                None \<Rightarrow> None
              | Some (cleared, s4) \<Rightarrow> Some (regenerateNextRow v s4)))"

definition settleBoard ::
  "variant \<Rightarrow> bool \<Rightarrow> onComplete option \<Rightarrow> state \<Rightarrow> (nat \<times> state) option" where
  "settleBoard v animate oc s = settleBoardWith (spawnBlocks v True) v animate oc s"

definition finalizePlacement ::
  "variant \<Rightarrow> pos list \<Rightarrow> string \<Rightarrow> nat option \<Rightarrow> int \<Rightarrow> bool \<Rightarrow> state \<Rightarrow> state option" where
  "finalizePlacement v cells col bid d shouldSpawnRow s =
     (case settleBoard v True (Some (SpawnIf shouldSpawnRow))
             (s\<lparr>grid := writeCells (grid s) cells d col bid\<rparr>) of
        None \<Rightarrow> None
      | Some (cleared, s') \<Rightarrow>
          Some (s'\<lparr>selectionMoved := (case v of IndexJs \<Rightarrow> False | Part000 \<Rightarrow> selectionMoved s')\<rparr>))"

section \<open>Example states\<close>

text \<open>The state the script starts from: an empty board and all variables at their initial
  values; \<open>rs\<close> is the sequence of random draws to come.\<close>

definition initialState :: "variant \<Rightarrow> nat list \<Rightarrow> state" where
  "initialState v rs =
     \<lparr>grid = replicate (nat (WIDTH * HEIGHT)) (makeCell (COLOR_BACKGROUND v) None),
      topLine = -1, selectedBlock = None, hoveredBlock = None, score = 0, nextRow = None,
      selectionMoved = False, fallingAnimation = None, blockCounter = 0, randomSource = rs\<rparr>"

text \<open>An animation in flight: one block of one cell at \<open>(0, 18)\<close> dropping by one row.\<close>

definition exampleAnimation :: animation where
  "exampleAnimation =
     \<lparr>moves = [\<lparr>mv_cells = [(0, 18)], mv_color = ''green'', mv_blockId = Some 1,
                 dropDistance = 1\<rparr>],
      finalize = None, after = [SettleAnimated None], strokeStyle = None,
      startTime = None, duration = 120\<rparr>"

definition animatingState :: "variant \<Rightarrow> state" where
  "animatingState v = (initialState v [])\<lparr>fallingAnimation := Some exampleAnimation\<rparr>"

section \<open>The single animation slot\<close>

text \<open>
  Claim C9. \<open>fallingAnimation\<close> is one variable, so at most one animation exists. A call
  \<open>settleBoard({ animate: true, onComplete })\<close> made while an animation is in flight returns 0
  at once and changes nothing but that animation's \<open>after\<close> queue, to which it appends the
  continuation \<open>() => settleBoard({ animate: true, onComplete })\<close>: the animation in the slot
  keeps its moves, finalizer, stroke style, start time and duration, and no second one is
  installed.
\<close>

theorem settleBoard_queues_behind_animation:
  assumes "fallingAnimation s = Some a"
  shows "settleBoard v True oc s
           = Some (0, s\<lparr>fallingAnimation := Some (a\<lparr>after := after a @ [SettleAnimated oc]\<rparr>)\<rparr>)"
  unfolding settleBoard_def
  by (subst settleBoardWith.simps) (simp add: assms)

theorem settleBoard_queues_behind_animation_witness:
  "fallingAnimation (animatingState IndexJs) = Some exampleAnimation
   \<and> settleBoard IndexJs True (Some (SpawnIf True)) (animatingState IndexJs)
       = Some (0, (animatingState IndexJs)
                    \<lparr>fallingAnimation :=
                       Some (exampleAnimation
                               \<lparr>after := [SettleAnimated None, SettleAnimated (Some (SpawnIf True))]\<rparr>)\<rparr>)"
proof -
  have h: "fallingAnimation (animatingState IndexJs) = Some exampleAnimation"
    by (simp add: animatingState_def)
  have "after exampleAnimation = [SettleAnimated None]"
    by (simp add: exampleAnimation_def)
  with settleBoard_queues_behind_animation[OF h, of IndexJs "Some (SpawnIf True)"] h
  show ?thesis by simp
qed

section \<open>Drag resolution\<close>

definition shiftCells :: "int \<Rightarrow> pos list \<Rightarrow> pos list" where
  "shiftCells off cells = map (\<lambda>(x, y). (x + off, y)) cells"

text \<open>A cell set fits when every cell is inside \<open>[0, WIDTH)\<close> and lies on an empty grid cell.\<close>

definition cellsFit :: "variant \<Rightarrow> cell list \<Rightarrow> pos list \<Rightarrow> bool" where
  "cellsFit v g cells =
     list_all (\<lambda>(x, y). 0 \<le> x \<and> x < WIDTH \<and> isEmptyCell v (gridAt g x y)) cells"

text \<open>The state \<open>applyOffset\<close> leaves when the walk settles on the offset \<open>n\<close>.\<close>

definition withOffset :: "variant \<Rightarrow> int \<Rightarrow> selection \<Rightarrow> state \<Rightarrow> state" where
  "withOffset v n sel s =
     (if n = offset sel then s
      else s\<lparr>selectedBlock := Some (sel\<lparr>offset := n, sel_cells := shiftCells n (baseCells sel)\<rparr>),
             selectionMoved := (case v of IndexJs \<Rightarrow> True | Part000 \<Rightarrow> selectionMoved s)\<rparr>)"

text \<open>A board with a one-cell block at \<open>(0, 19)\<close> and another at \<open>(2, 19)\<close>, and the state after
  a press of the primary button on the first block.\<close>

definition twoBlockBoard :: "variant \<Rightarrow> state" where
  "twoBlockBoard v =
     (initialState v [])
       \<lparr>grid := gridSet (gridSet (grid (initialState v [])) 0 19 (makeCell ''green'' (Some 1)))
                   2 19 (makeCell ''white'' (Some 2)),
        blockCounter := 2\<rparr>"

definition pressedState :: "variant \<Rightarrow> state" where
  "pressedState v = trySelectBlock v 0 10 670 (twoBlockBoard v)"

definition pressedSelection :: selection where
  "pressedSelection =
     \<lparr>sel_color = ''green'', sel_blockId = Some 1, baseCells = [(0, 19)],
      sel_cells = [(0, 19)], offset = 0, pointerStartX = 10\<rparr>"

lemma canPlaceOffset_iff: "canPlaceOffset v g base off = cellsFit v g (shiftCells off base)"
  by (induction base) (auto simp: cellsFit_def shiftCells_def split: if_splits)

lemma walkOffset_right:
  "cur \<le> target \<Longrightarrow>
   \<exists>n. walkOffset v g base 1 target cur = Some n \<and> cur \<le> n \<and> n \<le> target
       \<and> (\<forall>k. cur < k \<and> k \<le> n \<longrightarrow> canPlaceOffset v g base k)
       \<and> (n \<noteq> target \<longrightarrow> \<not> canPlaceOffset v g base (n + 1))"
proof (induction "nat (target - cur)" arbitrary: cur)
  case 0
  then have "cur = target" by simp
  then show ?case by (subst walkOffset.simps) auto
next
  case (Suc m)
  then have lt: "cur < target" by linarith
  show ?case
  proof (cases "canPlaceOffset v g base (cur + 1)")
    case False
    with lt show ?thesis by (subst walkOffset.simps) auto
  next
    case True
    have "m = nat (target - (cur + 1))" using Suc.hyps(2) by linarith
    moreover have "cur + 1 \<le> target" using lt by simp
    ultimately obtain n where n: "walkOffset v g base 1 target (cur + 1) = Some n"
      "cur + 1 \<le> n" "n \<le> target"
      "\<forall>k. cur + 1 < k \<and> k \<le> n \<longrightarrow> canPlaceOffset v g base k"
      "n \<noteq> target \<longrightarrow> \<not> canPlaceOffset v g base (n + 1)"
      using Suc.hyps(1)[of "cur + 1"] by blast
    have step: "walkOffset v g base 1 target cur = Some n"
      using lt True n(1) by (subst walkOffset.simps) simp
    have "\<forall>k. cur < k \<and> k \<le> n \<longrightarrow> canPlaceOffset v g base k"
    proof (intro allI impI)
      fix k assume k: "cur < k \<and> k \<le> n"
      show "canPlaceOffset v g base k"
      proof (cases "k = cur + 1")
        case True
        with \<open>canPlaceOffset v g base (cur + 1)\<close> show ?thesis by simp
      next
        case False
        with k n(4) show ?thesis by auto
      qed
    qed
    with step n show ?thesis by auto
  qed
qed

lemma walkOffset_left:
  "target \<le> cur \<Longrightarrow>
   \<exists>n. walkOffset v g base (-1) target cur = Some n \<and> target \<le> n \<and> n \<le> cur
       \<and> (\<forall>k. n \<le> k \<and> k < cur \<longrightarrow> canPlaceOffset v g base k)
       \<and> (n \<noteq> target \<longrightarrow> \<not> canPlaceOffset v g base (n - 1))"
proof (induction "nat (cur - target)" arbitrary: cur)
  case 0
  then have "cur = target" by simp
  then show ?case by (subst walkOffset.simps) auto
next
  case (Suc m)
  then have lt: "target < cur" by linarith
  show ?case
  proof (cases "canPlaceOffset v g base (cur - 1)")
    case False
    with lt show ?thesis by (subst walkOffset.simps) auto
  next
    case True
    have "m = nat ((cur - 1) - target)" using Suc.hyps(2) by linarith
    moreover have "target \<le> cur - 1" using lt by simp
    ultimately obtain n where n: "walkOffset v g base (-1) target (cur - 1) = Some n"
      "target \<le> n" "n \<le> cur - 1"
      "\<forall>k. n \<le> k \<and> k < cur - 1 \<longrightarrow> canPlaceOffset v g base k"
      "n \<noteq> target \<longrightarrow> \<not> canPlaceOffset v g base (n - 1)"
      using Suc.hyps(1)[of "cur - 1"] by blast
    have step: "walkOffset v g base (-1) target cur = Some n"
      using lt True n(1) by (subst walkOffset.simps) simp
    have "\<forall>k. n \<le> k \<and> k < cur \<longrightarrow> canPlaceOffset v g base k"
    proof (intro allI impI)
      fix k assume k: "n \<le> k \<and> k < cur"
      show "canPlaceOffset v g base k"
      proof (cases "k = cur - 1")
        case True
        with \<open>canPlaceOffset v g base (cur - 1)\<close> show ?thesis by simp
      next
        case False
        with k n(4) show ?thesis by auto
      qed
    qed
    with step n show ?thesis by auto
  qed
qed

lemma applyOffset_walk:
  assumes "selectedBlock s = Some sel" "req \<noteq> offset sel"
    "walkOffset v (grid s) (baseCells sel) (if req > offset sel then 1 else -1) req (offset sel)
       = Some n"
  shows "applyOffset v req s = Some (withOffset v n sel s)"
  using assms by (simp add: applyOffset_def withOffset_def shiftCells_def)

lemma pressedState_selected: "selectedBlock (pressedState IndexJs) = Some pressedSelection"
  by code_simp

lemma pressedState_fit1:
  "cellsFit IndexJs (grid (pressedState IndexJs)) (shiftCells 1 (baseCells pressedSelection))"
  by code_simp

lemma pressedState_nofit2:
  "\<not> cellsFit IndexJs (grid (pressedState IndexJs)) (shiftCells 2 (baseCells pressedSelection))"
  by code_simp

text \<open>
  Claim C7. For a selection \<open>sel\<close> and a requested offset \<open>req\<close>, \<open>applyOffset\<close> returns, and
  settles on an offset \<open>n\<close> between the current offset and \<open>req\<close> such that every offset
  passed on the way from the current one (excluded) to \<open>n\<close> (included) puts the base cells
  inside \<open>[0, WIDTH)\<close> and on empty cells, and such that, when \<open>n\<close> is not \<open>req\<close>, the next
  column in the direction of \<open>req\<close> does not: the walk advances one column at a time and
  stops at the first blocked step. Hence, if the cells at the current offset fit (as they do
  after the press, when the block's own cells have been emptied), the cells at the resulting
  offset fit as well.
\<close>

theorem applyOffset_resolution:
  assumes sel: "selectedBlock s = Some sel"
  shows "\<exists>n. applyOffset v req s = Some (withOffset v n sel s)
           \<and> (if req \<ge> offset sel
               then offset sel \<le> n \<and> n \<le> req
                    \<and> (\<forall>k. offset sel < k \<and> k \<le> n
                           \<longrightarrow> cellsFit v (grid s) (shiftCells k (baseCells sel)))
                    \<and> (n \<noteq> req \<longrightarrow> \<not> cellsFit v (grid s) (shiftCells (n + 1) (baseCells sel)))
               else req \<le> n \<and> n \<le> offset sel
                    \<and> (\<forall>k. n \<le> k \<and> k < offset sel
                           \<longrightarrow> cellsFit v (grid s) (shiftCells k (baseCells sel)))
                    \<and> (n \<noteq> req \<longrightarrow> \<not> cellsFit v (grid s) (shiftCells (n - 1) (baseCells sel))))
           \<and> (cellsFit v (grid s) (shiftCells (offset sel) (baseCells sel))
                \<longrightarrow> cellsFit v (grid s) (shiftCells n (baseCells sel)))"
proof (cases "req = offset sel")
  case True
  then have "applyOffset v req s = Some (withOffset v (offset sel) sel s)"
    using sel by (simp add: applyOffset_def withOffset_def)
  with True show ?thesis by auto
next
  case False
  show ?thesis
  proof (cases "req > offset sel")
    case True
    from walkOffset_right[of "offset sel" req v "grid s" "baseCells sel"] True
    obtain n where n: "walkOffset v (grid s) (baseCells sel) 1 req (offset sel) = Some n"
      "offset sel \<le> n" "n \<le> req"
      "\<forall>k. offset sel < k \<and> k \<le> n \<longrightarrow> canPlaceOffset v (grid s) (baseCells sel) k"
      "n \<noteq> req \<longrightarrow> \<not> canPlaceOffset v (grid s) (baseCells sel) (n + 1)"
      by force
    have "applyOffset v req s = Some (withOffset v n sel s)"
      using applyOffset_walk[OF sel False, of v n] True n(1) by simp
    moreover have "cellsFit v (grid s) (shiftCells (offset sel) (baseCells sel))
                \<longrightarrow> cellsFit v (grid s) (shiftCells n (baseCells sel))"
      using n(2,4) by (cases "n = offset sel") (auto simp: canPlaceOffset_iff)
    ultimately show ?thesis using True n by (auto simp: canPlaceOffset_iff)
  next
    case lt: False
    with False have lt': "req < offset sel" by simp
    from walkOffset_left[of req "offset sel" v "grid s" "baseCells sel"] lt'
    obtain n where n: "walkOffset v (grid s) (baseCells sel) (-1) req (offset sel) = Some n"
      "req \<le> n" "n \<le> offset sel"
      "\<forall>k. n \<le> k \<and> k < offset sel \<longrightarrow> canPlaceOffset v (grid s) (baseCells sel) k"
      "n \<noteq> req \<longrightarrow> \<not> canPlaceOffset v (grid s) (baseCells sel) (n - 1)"
      by force
    have "applyOffset v req s = Some (withOffset v n sel s)"
      using applyOffset_walk[OF sel False, of v n] lt n(1) by simp
    moreover have "cellsFit v (grid s) (shiftCells (offset sel) (baseCells sel))
                \<longrightarrow> cellsFit v (grid s) (shiftCells n (baseCells sel))"
      using n(3,4) by (cases "n = offset sel") (auto simp: canPlaceOffset_iff)
    ultimately show ?thesis using lt' n by (auto simp: canPlaceOffset_iff)
  qed
qed

text \<open>The scenario of the claim: the block at column 0 is selected, column 1 is free and
  column 2 is occupied. A request of \<open>+3\<close> yields offset \<open>+1\<close>.\<close>

theorem applyOffset_resolution_witness:
  "selectedBlock (pressedState IndexJs) = Some pressedSelection
   \<and> applyOffset IndexJs 3 (pressedState IndexJs)
       = Some (withOffset IndexJs 1 pressedSelection (pressedState IndexJs))
   \<and> cellsFit IndexJs (grid (pressedState IndexJs)) (shiftCells 1 (baseCells pressedSelection))"
proof -
  have off: "offset pressedSelection = 0" by (simp add: pressedSelection_def)
  from applyOffset_resolution[OF pressedState_selected, of IndexJs 3]
  obtain n where n: "applyOffset IndexJs 3 (pressedState IndexJs)
                       = Some (withOffset IndexJs n pressedSelection (pressedState IndexJs))"
    "0 \<le> n" "n \<le> 3"
    "\<forall>k. 0 < k \<and> k \<le> n \<longrightarrow>
         cellsFit IndexJs (grid (pressedState IndexJs)) (shiftCells k (baseCells pressedSelection))"
    "n \<noteq> 3 \<longrightarrow>
       \<not> cellsFit IndexJs (grid (pressedState IndexJs))
            (shiftCells (n + 1) (baseCells pressedSelection))"
    unfolding off by auto
  have "n < 2"
  proof (rule ccontr)
    assume "\<not> n < 2"
    then have "0 < (2::int) \<and> 2 \<le> n" by simp
    with n(4) pressedState_nofit2 show False by blast
  qed
  moreover have "n \<noteq> 0"
  proof
    assume "n = 0"
    with n(5) pressedState_fit1 show False by simp
  qed
  ultimately have "n = 1" using n(2) by linarith
  with n(1) pressedState_selected pressedState_fit1 show ?thesis by simp
qed

section \<open>Grid positions and drop distances\<close>

text \<open>\<open>inb x y\<close>: the position is on the board. \<open>landsFree v g cells d\<close>: moved down by \<open>d\<close>
  rows, every cell stays above the floor and lies on an empty cell of \<open>g\<close>.\<close>

definition inb :: "int \<Rightarrow> int \<Rightarrow> bool" where
  "inb x y = (0 \<le> x \<and> x < WIDTH \<and> 0 \<le> y \<and> y < HEIGHT)"

definition landsFree :: "variant \<Rightarrow> cell list \<Rightarrow> pos list \<Rightarrow> int \<Rightarrow> bool" where
  "landsFree v g cells d =
     list_all (\<lambda>(x, y). y + d < HEIGHT \<and> isEmptyCell v (gridAt g x (y + d))) cells"

text \<open>A board where the block \<open>(0, 17), (1, 17)\<close> rests on the overhanging block
  \<open>(1, 18), (2, 18)\<close>, itself resting on \<open>(2, 19)\<close>; the cells \<open>(0, 18)\<close>, \<open>(0, 19)\<close> and
  \<open>(1, 19)\<close> are empty. And a board with one block of two cells stacked in column 0, at rows 5
  and 6, with nothing below.\<close>

definition overhangBoard :: "variant \<Rightarrow> state" where
  "overhangBoard v =
     (initialState v [])
       \<lparr>grid := writeCells (writeCells (writeCells (grid (initialState v []))
                   [(2, 19)] 0 ''blue'' (Some 3)) [(1, 18), (2, 18)] 0 ''white'' (Some 2))
                   [(0, 17), (1, 17)] 0 ''green'' (Some 1),
        blockCounter := 3\<rparr>"

definition floatingColumn :: "variant \<Rightarrow> state" where
  "floatingColumn v =
     (initialState v [])
       \<lparr>grid := writeCells (grid (initialState v [])) [(0, 5), (0, 6)] 0 ''green'' (Some 1),
        blockCounter := 1\<rparr>"

lemma idx_eq_int:
  fixes x y x' y' :: int
  assumes "0 \<le> x" "x < 10" "0 \<le> x'" "x' < 10" "y * 10 + x = y' * 10 + x'"
  shows "x = x' \<and> y = y'"
  using assms by presburger

lemma idx_inj:
  assumes "inb x y" "inb x' y'"
  shows "(nat (idx x y) = nat (idx x' y')) = (x = x' \<and> y = y')"
proof -
  have "0 \<le> idx x y" "0 \<le> idx x' y'"
    using assms by (auto simp: inb_def idx_def)
  then have "(nat (idx x y) = nat (idx x' y')) = (idx x y = idx x' y')" by auto
  also have "\<dots> = (x = x' \<and> y = y')"
    using assms idx_eq_int[of x x' y y'] by (auto simp: inb_def idx_def)
  finally show ?thesis .
qed

lemma idx_bound: "inb x y \<Longrightarrow> nat (idx x y) < 200"
  by (auto simp: inb_def idx_def)

lemma length_gridSet [simp]: "length (gridSet g x y c) = length g"
  by (simp add: gridSet_def)

lemma gridAt_gridSet:
  "length g = 200 \<Longrightarrow> inb x y \<Longrightarrow> inb x' y' \<Longrightarrow>
   gridAt (gridSet g x y c) x' y' = (if x = x' \<and> y = y' then c else gridAt g x' y')"
  using idx_inj[of x y x' y'] idx_bound[of x y]
  by (auto simp: gridAt_def gridSet_def)

lemma length_clearCells [simp]: "length (clearCells v g cells) = length g"
  unfolding clearCells_def by (induction cells arbitrary: g) auto

lemma length_writeCells [simp]: "length (writeCells g cells d col bid) = length g"
  unfolding writeCells_def by (induction cells arbitrary: g) auto

lemma gridAt_clearCells:
  "length g = 200 \<Longrightarrow> \<forall>(x, y) \<in> set cells. inb x y \<Longrightarrow> inb x' y' \<Longrightarrow>
   gridAt (clearCells v g cells) x' y'
     = (if (x', y') \<in> set cells then makeCell (COLOR_BACKGROUND v) None else gridAt g x' y')"
  unfolding clearCells_def
proof (induction cells arbitrary: g rule: rev_induct)
  case Nil
  then show ?case by simp
next
  case (snoc c cells)
  obtain x y where c: "c = (x, y)" by (cases c)
  have len: "length (foldl (\<lambda>g (x, y). gridSet g x y (makeCell (COLOR_BACKGROUND v) None)) g cells) = 200"
    using snoc.prems(1) length_clearCells[of v g cells] by (simp add: clearCells_def)
  from snoc show ?case
    using c len by (auto simp: gridAt_gridSet)
qed

lemma gridAt_writeCells:
  "length g = 200 \<Longrightarrow> \<forall>(x, y) \<in> set cells. inb x (y + d) \<Longrightarrow> inb x' y' \<Longrightarrow>
   gridAt (writeCells g cells d col bid) x' y'
     = (if (x', y' - d) \<in> set cells then makeCell col bid else gridAt g x' y')"
  unfolding writeCells_def
proof (induction cells arbitrary: g rule: rev_induct)
  case Nil
  then show ?case by simp
next
  case (snoc c cells)
  obtain x y where c: "c = (x, y)" by (cases c)
  have len: "length (foldl (\<lambda>g (x, y). gridSet g x (y + d) (makeCell col bid)) g cells) = 200"
    using snoc.prems(1) length_writeCells[of g cells d col bid] by (simp add: writeCells_def)
  from snoc show ?case
    using c len by (auto simp: gridAt_gridSet)
qed

lemma dropBlocked_iff: "dropBlocked v g cells d = (\<not> landsFree v g cells (d + 1))"
  by (induction cells) (auto simp: landsFree_def add.assoc split: if_splits)

lemma dropLoop_total:
  assumes "cells \<noteq> []"
  shows "\<exists>d. dropLoop v g cells d0 = Some d \<and> d0 \<le> d
            \<and> (\<forall>k. d0 < k \<and> k \<le> d \<longrightarrow> landsFree v g cells k)
            \<and> \<not> landsFree v g cells (d + 1)"
proof -
  obtain cx cy rest where cells: "cells = (cx, cy) # rest"
    using assms by (cases cells) auto
  show ?thesis
  proof (induction "nat (HEIGHT - cy - d0)" arbitrary: d0)
    case 0
    then have "cy + d0 + 1 \<ge> HEIGHT" by simp
    then have "dropBlocked v g cells d0" by (simp add: cells)
    then show ?case
      by (subst dropLoop.simps) (auto simp: dropBlocked_iff)
  next
    case (Suc m)
    show ?case
    proof (cases "dropBlocked v g cells d0")
      case True
      then show ?thesis by (subst dropLoop.simps) (auto simp: dropBlocked_iff)
    next
      case False
      have "m = nat (HEIGHT - cy - (d0 + 1))" using Suc.hyps(2) by linarith
      from Suc.hyps(1)[OF this] obtain d where d: "dropLoop v g cells (d0 + 1) = Some d"
        "d0 + 1 \<le> d" "\<forall>k. d0 + 1 < k \<and> k \<le> d \<longrightarrow> landsFree v g cells k"
        "\<not> landsFree v g cells (d + 1)" by blast
      have "dropLoop v g cells d0 = Some d"
        using False d(1) by (subst dropLoop.simps) simp
      moreover have "\<forall>k. d0 < k \<and> k \<le> d \<longrightarrow> landsFree v g cells k"
      proof (intro allI impI)
        fix k assume k: "d0 < k \<and> k \<le> d"
        show "landsFree v g cells k"
        proof (cases "k = d0 + 1")
          case True
          with False show ?thesis by (simp add: dropBlocked_iff)
        next
          case False
          with k d(3) show ?thesis by auto
        qed
      qed
      ultimately show ?thesis using d by auto
    qed
  qed
qed

lemma dropLoop_unique:
  assumes "dropLoop v g cells d0 = Some d" "cells \<noteq> []"
    and "d0 \<le> d'" "\<forall>k. d0 < k \<and> k \<le> d' \<longrightarrow> landsFree v g cells k"
    "\<not> landsFree v g cells (d' + 1)"
  shows "d = d'"
proof -
  from dropLoop_total[OF assms(2), of v g d0] assms(1)
  have d: "d0 \<le> d" "\<forall>k. d0 < k \<and> k \<le> d \<longrightarrow> landsFree v g cells k"
    "\<not> landsFree v g cells (d + 1)" by auto
  show ?thesis
  proof (rule ccontr)
    assume "d \<noteq> d'"
    then consider "d < d'" | "d' < d" by linarith
    then show False
    proof cases
      case 1
      then have "d0 < d + 1 \<and> d + 1 \<le> d'" using d(1) by simp
      with assms(4) d(3) show False by blast
    next
      case 2
      then have "d0 < d' + 1 \<and> d' + 1 \<le> d" using assms(3) by simp
      with d(2) assms(5) show False by blast
    qed
  qed
qed

lemma landsFree_clearCells:
  assumes len: "length g = 200" and inb: "\<forall>(x, y) \<in> set cells. inb x y"
    and row: "\<forall>(x, y) \<in> set cells. y = r" and k: "0 < k"
  shows "landsFree v (clearCells v g cells) cells k = landsFree v g cells k"
proof -
  have "\<And>x y. (x, y) \<in> set cells \<Longrightarrow> y + k < HEIGHT \<Longrightarrow>
          gridAt (clearCells v g cells) x (y + k) = gridAt g x (y + k)"
  proof -
    fix x y assume xy: "(x, y) \<in> set cells" and lt: "y + k < HEIGHT"
    from xy inb have "inb x y" by auto
    with lt k have "inb x (y + k)" by (simp add: inb_def)
    moreover have "(x, y + k) \<notin> set cells"
    proof
      assume "(x, y + k) \<in> set cells"
      with row have "y + k = r" by auto
      moreover from row xy have "y = r" by auto
      ultimately show False using k by simp
    qed
    ultimately show "gridAt (clearCells v g cells) x (y + k) = gridAt g x (y + k)"
      using gridAt_clearCells[OF len inb] by simp
  qed
  then show ?thesis
    unfolding landsFree_def list_all_iff by (auto 4 4)
qed

text \<open>
  Claim C4, as the code has it. For a non-empty cell list, the loop shared by \<open>applyGravity\<close>
  and \<open>computeDropDistance\<close> returns the distance \<open>d \<ge> 0\<close> of the first obstruction: every
  distance \<open>1 .. d\<close> keeps all cells above the floor and on empty cells of the grid as it is,
  and distance \<open>d + 1\<close> does not. The block's own cells are not taken out of the grid for
  this test; for cells that lie in one row of the board this makes no difference, the
  result on the grid with those cells emptied being the same.
\<close>

theorem dropDistance_first_obstruction:
  assumes "cells \<noteq> []"
  shows "\<exists>d. computeDropDistance v cells s = Some d \<and> dropLoop v (grid s) cells 0 = Some d
           \<and> 0 \<le> d
           \<and> (\<forall>k. 0 < k \<and> k \<le> d \<longrightarrow> landsFree v (grid s) cells k)
           \<and> \<not> landsFree v (grid s) cells (d + 1)
           \<and> (length (grid s) = 200 \<and> (\<forall>(x, y) \<in> set cells. inb x y \<and> y = snd (hd cells))
                \<longrightarrow> dropLoop v (clearCells v (grid s) cells) cells 0 = Some d)"
proof -
  from dropLoop_total[OF assms, of v "grid s" 0]
  obtain d where d: "dropLoop v (grid s) cells 0 = Some d" "0 \<le> d"
    "\<forall>k. 0 < k \<and> k \<le> d \<longrightarrow> landsFree v (grid s) cells k"
    "\<not> landsFree v (grid s) cells (d + 1)" by blast
  have "dropLoop v (clearCells v (grid s) cells) cells 0 = Some d"
    if len: "length (grid s) = 200" and c: "\<forall>(x, y) \<in> set cells. inb x y \<and> y = snd (hd cells)"
  proof -
    have inb: "\<forall>(x, y) \<in> set cells. inb x y" and row: "\<forall>(x, y) \<in> set cells. y = snd (hd cells)"
      using c by auto
    from dropLoop_total[OF assms, of v "clearCells v (grid s) cells" 0]
    obtain d' where d': "dropLoop v (clearCells v (grid s) cells) cells 0 = Some d'" by blast
    have "d' = d"
    proof (rule dropLoop_unique[OF d' assms d(2)])
      show "\<forall>k. 0 < k \<and> k \<le> d \<longrightarrow> landsFree v (clearCells v (grid s) cells) cells k"
        using d(3) landsFree_clearCells[OF len inb row] by simp
      show "\<not> landsFree v (clearCells v (grid s) cells) cells (d + 1)"
        using d(2,4) landsFree_clearCells[OF len inb row, of "d + 1"] by simp
    qed
    with d' show ?thesis by simp
  qed
  with d show ?thesis by (auto simp: computeDropDistance_def)
qed

text \<open>The scenario of the specification: a block over columns 2 to 4 of row 10 with nothing
  below drops by \<open>HEIGHT - 1 - 10 = 9\<close>.\<close>

theorem dropDistance_first_obstruction_witness:
  "[(2, 10), (3, 10), (4, 10)] \<noteq> ([] :: pos list)
   \<and> length (grid (initialState IndexJs [])) = 200
   \<and> list_all (\<lambda>(x, y). inb x y \<and> y = snd (hd [(2, 10), (3, 10), (4 :: int, 10 :: int)]))
        [(2, 10), (3, 10), (4, 10)]
   \<and> computeDropDistance IndexJs [(2, 10), (3, 10), (4, 10)] (initialState IndexJs []) = Some 9
   \<and> dropLoop IndexJs
        (clearCells IndexJs (grid (initialState IndexJs [])) [(2, 10), (3, 10), (4, 10)])
        [(2, 10), (3, 10), (4, 10)] 0 = Some 9"
proof -
  let ?cells = "[(2, 10), (3, 10), (4, 10)] :: pos list"
  have ne: "?cells \<noteq> []" by simp
  have len: "length (grid (initialState IndexJs [])) = 200"
    by (simp add: initialState_def)
  have row: "\<forall>(x, y) \<in> set ?cells. inb x y \<and> y = snd (hd ?cells)"
    by (simp add: inb_def)
  have ev: "computeDropDistance IndexJs ?cells (initialState IndexJs []) = Some 9"
    by code_simp
  from dropDistance_first_obstruction[OF ne, of IndexJs "initialState IndexJs []"] ev len row
  have "dropLoop IndexJs (clearCells IndexJs (grid (initialState IndexJs [])) ?cells) ?cells 0
          = Some 9"
    by auto
  moreover have "list_all (\<lambda>(x, y). inb x y \<and> y = snd (hd ?cells)) ?cells"
    by (simp add: inb_def)
  ultimately show ?thesis using ne len ev by blast
qed

text \<open>The claim as stated fails. On the overhang board the code's distance for the block
  \<open>(0, 17), (1, 17)\<close> is 0, although moved down by 2 rows, with its own cells taken as
  vacated, it is above the floor and on empty cells only: 0 is not the greatest such
  distance. On the other board the gravity loop finds distance 0 for the two stacked cells,
  because the upper cell is stopped by the lower cell of the same block, although with the
  block's own cells vacated it could move down by 13 rows.\<close>

theorem dropDistance_maximal_counterexample:
  "computeDropDistance IndexJs [(0, 17), (1, 17)] (overhangBoard IndexJs) = Some 0
   \<and> landsFree IndexJs (clearCells IndexJs (grid (overhangBoard IndexJs)) [(0, 17), (1, 17)])
        [(0, 17), (1, 17)] 2
   \<and> dropLoop IndexJs (grid (floatingColumn IndexJs))
        (collectBlockCells (grid (floatingColumn IndexJs)) 0 6 (Some 1)) 0 = Some 0
   \<and> landsFree IndexJs
        (clearCells IndexJs (grid (floatingColumn IndexJs))
           (collectBlockCells (grid (floatingColumn IndexJs)) 0 6 (Some 1)))
        (collectBlockCells (grid (floatingColumn IndexJs)) 0 6 (Some 1)) 13"
  by code_simp

section \<open>When a release asks for a new row\<close>

text \<open>A sequence of \<open>applyOffset\<close> calls, and whether one of them changed the offset.\<close>

fun drags :: "variant \<Rightarrow> int list \<Rightarrow> state \<Rightarrow> state option" where
  "drags v [] s = Some s"
| "drags v (off # offs) s =
     (case applyOffset v off s of None \<Rightarrow> None | Some s' \<Rightarrow> drags v offs s')"

fun everMoved :: "variant \<Rightarrow> int list \<Rightarrow> state \<Rightarrow> bool" where
  "everMoved v [] s = False"
| "everMoved v (off # offs) s =
     (case applyOffset v off s of
        None \<Rightarrow> False
      | Some s' \<Rightarrow>
          map_option offset (selectedBlock s') \<noteq> map_option offset (selectedBlock s)
          \<or> everMoved v offs s')"

text \<open>Press on the block at \<open>(0, 19)\<close>, drag it to offset 1, drag it back to offset 0, release:
  the offset at release and the \<open>shouldSpawn\<close> flag of the placement.\<close>

definition dragAwayAndBack :: "variant \<Rightarrow> (int option \<times> bool option) option" where
  "dragAwayAndBack v =
     (case drags v [1, 0] (pressedState v) of
        None \<Rightarrow> None
      | Some s2 \<Rightarrow>
          (case dropSelectedBlock v s2 of
             None \<Rightarrow> None
           | Some (p, s3) \<Rightarrow>
               Some (map_option offset (selectedBlock s2), map_option shouldSpawn p)))"

lemma applyOffset_cases:
  assumes "applyOffset v off s = Some s'" "selectedBlock s = Some sel"
  shows "(s' = s) \<or>
         (\<exists>n. n \<noteq> offset sel \<and>
              s' = s\<lparr>selectedBlock := Some (sel\<lparr>offset := n,
                          sel_cells := map (\<lambda>(x, y). (x + n, y)) (baseCells sel)\<rparr>),
                     selectionMoved := (case v of IndexJs \<Rightarrow> True | Part000 \<Rightarrow> selectionMoved s)\<rparr>)"
  using assms
  by (auto simp: applyOffset_def split: if_splits bind_splits)

lemma applyOffset_selected:
  assumes "applyOffset v off s = Some s'" "selectedBlock s = Some sel"
  shows "\<exists>sel'. selectedBlock s' = Some sel'"
  using applyOffset_cases[OF assms] assms(2) by auto

lemma applyOffset_moved:
  assumes "applyOffset IndexJs off s = Some s'" "selectedBlock s = Some sel"
  shows "selectionMoved s' =
           (selectionMoved s
            \<or> map_option offset (selectedBlock s') \<noteq> map_option offset (selectedBlock s))"
  using applyOffset_cases[OF assms] assms(2) by auto

lemma drags_moved:
  "drags IndexJs offs s = Some s' \<Longrightarrow> selectedBlock s = Some sel \<Longrightarrow>
   selectionMoved s' = (selectionMoved s \<or> everMoved IndexJs offs s)"
proof (induction offs arbitrary: s sel)
  case Nil
  then show ?case by simp
next
  case (Cons off offs)
  from Cons.prems(1) obtain s1 where s1: "applyOffset IndexJs off s = Some s1"
    and rest: "drags IndexJs offs s1 = Some s'"
    by (auto split: option.splits)
  from applyOffset_selected[OF s1 Cons.prems(2)] obtain sel1
    where sel1: "selectedBlock s1 = Some sel1"
    by blast
  from Cons.IH[OF rest sel1] applyOffset_moved[OF s1 Cons.prems(2)] s1
  show ?case by auto
qed

lemma applyOffset_returns:
  assumes "selectedBlock s = Some sel"
  shows "\<exists>n. applyOffset v req s = Some (withOffset v n sel s)"
proof (cases "req = offset sel")
  case True
  then have "applyOffset v req s = Some (withOffset v (offset sel) sel s)"
    using assms by (simp add: applyOffset_def withOffset_def)
  then show ?thesis by blast
next
  case False
  show ?thesis
  proof (cases "req > offset sel")
    case True
    from walkOffset_right[of "offset sel" req v "grid s" "baseCells sel"] True
    obtain n where "walkOffset v (grid s) (baseCells sel) 1 req (offset sel) = Some n" by auto
    with applyOffset_walk[OF assms False, of v n] True show ?thesis by auto
  next
    case gt: False
    with False have "req \<le> offset sel" by simp
    from walkOffset_left[OF this, of v "grid s" "baseCells sel"]
    obtain n where "walkOffset v (grid s) (baseCells sel) (-1) req (offset sel) = Some n" by auto
    with applyOffset_walk[OF assms False, of v n] gt show ?thesis by auto
  qed
qed

text \<open>What a successful press leaves: a selection at offset 0 over a non-empty cell list, and
  in \<open>index.js\<close> the flag \<open>selectionMoved\<close> reset.\<close>

lemma trySelectBlock_pressed:
  assumes "selectedBlock s = None"
    and "selectedBlock (trySelectBlock v button px py s) = Some sel"
  shows "offset sel = 0 \<and> sel_cells sel \<noteq> [] \<and> baseCells sel \<noteq> []
         \<and> (v = IndexJs \<longrightarrow> \<not> selectionMoved (trySelectBlock v button px py s))"
  using assms
  by (auto simp: trySelectBlock_def Let_def split: if_splits)

lemma withOffset_selection:
  "selectedBlock s = Some sel \<Longrightarrow>
   \<exists>sel'. selectedBlock (withOffset v n sel s) = Some sel' \<and> offset sel' = n
          \<and> baseCells sel' = baseCells sel
          \<and> (sel_cells sel \<noteq> [] \<and> baseCells sel \<noteq> [] \<longrightarrow> sel_cells sel' \<noteq> [])"
  by (simp add: withOffset_def shiftCells_def)

text \<open>Every sequence of drag requests returns and keeps a selection; when the offset at the
  end differs from the one at the start, one of the requests changed it.\<close>

lemma drags_returns:
  "selectedBlock s = Some sel \<Longrightarrow> sel_cells sel \<noteq> [] \<Longrightarrow> baseCells sel \<noteq> [] \<Longrightarrow>
   \<exists>s' sel'. drags v offs s = Some s' \<and> selectedBlock s' = Some sel'
      \<and> sel_cells sel' \<noteq> [] \<and> baseCells sel' \<noteq> []
      \<and> (offset sel' \<noteq> offset sel \<longrightarrow> everMoved v offs s)"
proof (induction offs arbitrary: s sel)
  case Nil
  then show ?case by simp
next
  case (Cons off offs)
  from applyOffset_returns[OF Cons.prems(1), of v off]
  obtain n where n: "applyOffset v off s = Some (withOffset v n sel s)" by blast
  from withOffset_selection[OF Cons.prems(1), of v n] Cons.prems(2,3)
  obtain sel1 where sel1: "selectedBlock (withOffset v n sel s) = Some sel1" "offset sel1 = n"
    "baseCells sel1 \<noteq> []" "sel_cells sel1 \<noteq> []" by auto
  from Cons.IH[OF sel1(1) sel1(4) sel1(3)]
  obtain s' sel' where r: "drags v offs (withOffset v n sel s) = Some s'"
    "selectedBlock s' = Some sel'" "sel_cells sel' \<noteq> []" "baseCells sel' \<noteq> []"
    "offset sel' \<noteq> offset sel1 \<longrightarrow> everMoved v offs (withOffset v n sel s)" by blast
  have d: "drags v (off # offs) s = Some s'" using n r(1) by simp
  have e: "everMoved v (off # offs) s" if "offset sel' \<noteq> offset sel"
  proof (cases "n = offset sel")
    case True
    with that sel1(2) r(5) have "everMoved v offs (withOffset v n sel s)" by simp
    then show ?thesis using n by simp
  next
    case False
    then show ?thesis using n sel1(1,2) Cons.prems(1) by simp
  qed
  from d r(2,3,4) e show ?case by blast
qed

lemma dropSelectedBlock_returns:
  assumes "selectedBlock s = Some sel" "sel_cells sel \<noteq> []"
  shows "\<exists>p s'. dropSelectedBlock v s = Some (Some p, s')
           \<and> shouldSpawn p = (case v of IndexJs \<Rightarrow> selectionMoved s | Part000 \<Rightarrow> offset sel \<noteq> 0)"
proof -
  from dropLoop_total[OF assms(2), of v "grid s" 0]
  obtain d where "dropLoop v (grid s) (sel_cells sel) 0 = Some d" by blast
  then show ?thesis
    using assms(1) by (simp add: dropSelectedBlock_def computeDropDistance_def)
qed

text \<open>
  Claim C1, as the code has it. Take a state without a selection in which a press
  (\<open>trySelectBlock\<close>) picks up a block, then any sequence of drag requests, then the release
  (\<open>dropSelectedBlock\<close>). The drags and the release return, the release makes a placement,
  and the placement's \<open>shouldSpawn\<close> flag is true
  \<^item> in \<open>part_000\<close>: exactly when the offset at release differs from zero;
  \<^item> in \<open>index.js\<close>: exactly when some drag request since the press changed the offset,
    whether or not the block is back at offset zero at release.

  In both variants the flag is true whenever the offset at release differs from zero.
\<close>

theorem shouldSpawn_at_release:
  assumes "selectedBlock s = None"
    and "selectedBlock (trySelectBlock v button px py s) \<noteq> None"
  shows "\<exists>s1 sel1 p s2.
           drags v offs (trySelectBlock v button px py s) = Some s1
           \<and> selectedBlock s1 = Some sel1
           \<and> dropSelectedBlock v s1 = Some (Some p, s2)
           \<and> shouldSpawn p
               = (case v of Part000 \<Rightarrow> offset sel1 \<noteq> 0
                  | IndexJs \<Rightarrow> everMoved IndexJs offs (trySelectBlock v button px py s))
           \<and> (offset sel1 \<noteq> 0 \<longrightarrow> shouldSpawn p)"
proof -
  let ?s0 = "trySelectBlock v button px py s"
  from assms(2) obtain sel0 where sel0: "selectedBlock ?s0 = Some sel0" by auto
  note pr = trySelectBlock_pressed[OF assms(1) sel0]
  from pr have p0: "offset sel0 = 0" "sel_cells sel0 \<noteq> []" "baseCells sel0 \<noteq> []" by simp_all
  from drags_returns[OF sel0 p0(2,3), of v offs]
  obtain s1 sel1 where d: "drags v offs ?s0 = Some s1" "selectedBlock s1 = Some sel1"
    "sel_cells sel1 \<noteq> []" "offset sel1 \<noteq> offset sel0 \<longrightarrow> everMoved v offs ?s0" by blast
  from dropSelectedBlock_returns[OF d(2,3), of v]
  obtain p s2 where r: "dropSelectedBlock v s1 = Some (Some p, s2)"
    "shouldSpawn p = (case v of IndexJs \<Rightarrow> selectionMoved s1 | Part000 \<Rightarrow> offset sel1 \<noteq> 0)"
    by blast
  have f: "shouldSpawn p = (case v of Part000 \<Rightarrow> offset sel1 \<noteq> 0
                            | IndexJs \<Rightarrow> everMoved IndexJs offs ?s0)"
  proof (cases v)
    case IndexJs
    with pr have "\<not> selectionMoved ?s0" by simp
    with drags_moved[OF d(1)[unfolded IndexJs] sel0[unfolded IndexJs]] r(2) IndexJs
    show ?thesis by simp
  next
    case Part000
    with r(2) show ?thesis by simp
  qed
  have g: "offset sel1 \<noteq> 0 \<longrightarrow> shouldSpawn p"
    using f d(4) p0(1) by (cases v) auto
  from d(1,2) r(1) f g show ?thesis by blast
qed

text \<open>Two runs in \<open>index.js\<close> from a press on the block at \<open>(0, 19)\<close>: dragged to offset 1 and
  back to 0, and dragged towards offset 3, which the walk resolves to 1. Both releases ask
  for a new row.\<close>

theorem shouldSpawn_at_release_witness:
  "selectedBlock (twoBlockBoard IndexJs) = None
   \<and> selectedBlock (trySelectBlock IndexJs 0 10 670 (twoBlockBoard IndexJs)) \<noteq> None
   \<and> (\<exists>s1 sel1 p s2.
         drags IndexJs [1, 0] (trySelectBlock IndexJs 0 10 670 (twoBlockBoard IndexJs)) = Some s1
         \<and> selectedBlock s1 = Some sel1
         \<and> dropSelectedBlock IndexJs s1 = Some (Some p, s2)
         \<and> offset sel1 = 0 \<and> shouldSpawn p)
   \<and> (\<exists>s1 sel1 p s2.
         drags IndexJs [3] (trySelectBlock IndexJs 0 10 670 (twoBlockBoard IndexJs)) = Some s1
         \<and> selectedBlock s1 = Some sel1
         \<and> dropSelectedBlock IndexJs s1 = Some (Some p, s2)
         \<and> offset sel1 = 1 \<and> shouldSpawn p)"
proof -
  let ?s0 = "trySelectBlock IndexJs 0 10 670 (twoBlockBoard IndexJs)"
  have a: "selectedBlock (twoBlockBoard IndexJs) = None" by code_simp
  have b: "selectedBlock ?s0 \<noteq> None" by code_simp
  have e: "everMoved IndexJs [1, 0] ?s0" by code_simp
  have o: "map_option offset (selectedBlock (the (drags IndexJs [1, 0] ?s0))) = Some 0"
    by code_simp
  have o3: "map_option offset (selectedBlock (the (drags IndexJs [3] ?s0))) = Some 1"
    by code_simp
  from shouldSpawn_at_release[OF a b, of "[1, 0]"] e o
  have 1: "\<exists>s1 sel1 p s2. drags IndexJs [1, 0] ?s0 = Some s1 \<and> selectedBlock s1 = Some sel1
         \<and> dropSelectedBlock IndexJs s1 = Some (Some p, s2) \<and> offset sel1 = 0 \<and> shouldSpawn p"
    by fastforce
  from shouldSpawn_at_release[OF a b, of "[3]"] o3
  have 2: "\<exists>s1 sel1 p s2. drags IndexJs [3] ?s0 = Some s1 \<and> selectedBlock s1 = Some sel1
         \<and> dropSelectedBlock IndexJs s1 = Some (Some p, s2) \<and> offset sel1 = 1 \<and> shouldSpawn p"
    by fastforce
  from a b 1 2 show ?thesis by blast
qed

text \<open>The claim as stated fails in \<open>index.js\<close>: dragged to offset 1 and back, the block is
  released at offset 0 and the placement still asks for a new row.\<close>

theorem shouldSpawn_offset_zero_counterexample:
  "dragAwayAndBack IndexJs = Some (Some 0, Some True)"
  by code_simp

lemma dragAwayAndBack_Part000: "dragAwayAndBack Part000 = Some (Some 0, Some False)"
  by code_simp

section \<open>Generated rows\<close>

text \<open>\<open>idColumns row b\<close>: the columns of the row whose cell carries block id \<open>b\<close>.
  \<open>filledColumns v row\<close>: the columns whose cell is not empty.\<close>

definition idColumns :: "cell list \<Rightarrow> nat \<Rightarrow> int set" where
  "idColumns row b = set (filter (\<lambda>x. blockId (row ! nat x) = Some b) [0 .. WIDTH - 1])"

definition filledColumns :: "variant \<Rightarrow> cell list \<Rightarrow> int set" where
  "filledColumns v row = set (filter (\<lambda>x. \<not> isEmptyCell v (row ! nat x)) [0 .. WIDTH - 1])"

text \<open>The invariant of the generation loop.\<close>

definition rowInv :: "variant \<Rightarrow> nat \<Rightarrow> cell list \<Rightarrow> int \<Rightarrow> int \<Rightarrow> state \<Rightarrow> bool" where
  "rowInv v bc0 row spawned x s =
     (length row = 10 \<and> 0 \<le> x \<and> x \<le> WIDTH \<and> 0 \<le> spawned \<and> spawned \<le> MAX_BLOCK_SPAWN
      \<and> bc0 \<le> blockCounter s
      \<and> (\<forall>i. x \<le> i \<and> i < WIDTH \<longrightarrow> row ! nat i = makeCell (COLOR_BACKGROUND v) None)
      \<and> (\<forall>i. 0 \<le> i \<and> i < WIDTH \<longrightarrow> (blockId (row ! nat i) = None) = isEmptyCell v (row ! nat i))
      \<and> int (card (filledColumns v row)) = spawned
      \<and> (\<forall>b. idColumns row b \<noteq> {} \<longrightarrow>
             bc0 < b \<and> b \<le> blockCounter s
             \<and> (\<exists>a n. 1 \<le> n \<and> n \<le> 4 \<and> idColumns row b = {a ..< a + n})))"

text \<open>A row drawn from the initial state: green over columns 0 to 3, a gap of two, white over
  columns 6 to 8, and an empty last column.\<close>

definition exampleRow :: "cell list" where
  "exampleRow =
     [Cell ''green'' (Some 1), Cell ''green'' (Some 1), Cell ''green'' (Some 1),
      Cell ''green'' (Some 1), Cell ''black'' None, Cell ''black'' None,
      Cell ''white'' (Some 2), Cell ''white'' (Some 2), Cell ''white'' (Some 2),
      Cell ''black'' None]"

lemma idColumns_iff: "idColumns row b = {x. 0 \<le> x \<and> x < WIDTH \<and> blockId (row ! nat x) = Some b}"
  by (auto simp: idColumns_def)

lemma filledColumns_iff:
  "filledColumns v row = {x. 0 \<le> x \<and> x < WIDTH \<and> \<not> isEmptyCell v (row ! nat x)}"
  by (auto simp: filledColumns_def)

lemma writeSegment_upto:
  "0 \<le> x \<Longrightarrow> -1 \<le> m \<Longrightarrow> x + m < int (length row) \<Longrightarrow> int (length row) \<le> WIDTH \<Longrightarrow>
   length (foldl (\<lambda>r bx. if x + bx < WIDTH then r[nat (x + bx) := c] else r) row [0 .. m]) = length row
   \<and> (\<forall>i. 0 \<le> i \<and> i < int (length row) \<longrightarrow>
         foldl (\<lambda>r bx. if x + bx < WIDTH then r[nat (x + bx) := c] else r) row [0 .. m] ! nat i
           = (if x \<le> i \<and> i \<le> x + m then c else row ! nat i))"
proof (induction "nat (m + 1)" arbitrary: m)
  case 0
  then have "m = -1" by simp
  then show ?case by auto
next
  case (Suc n)
  then have m0: "0 \<le> m" by linarith
  have up: "[0 .. m] = [0 .. m - 1] @ [m]" using m0 by (simp add: upto_rec2)
  have n: "n = nat ((m - 1) + 1)" using Suc.hyps(2) by linarith
  have IH: "length (foldl (\<lambda>r bx. if x + bx < WIDTH then r[nat (x + bx) := c] else r) row [0 .. m - 1]) = length row
   \<and> (\<forall>i. 0 \<le> i \<and> i < int (length row) \<longrightarrow>
         foldl (\<lambda>r bx. if x + bx < WIDTH then r[nat (x + bx) := c] else r) row [0 .. m - 1] ! nat i
           = (if x \<le> i \<and> i \<le> x + (m - 1) then c else row ! nat i))"
    using Suc.hyps(1)[OF n] Suc.prems m0 by simp
  show ?case
    unfolding up foldl_append using IH Suc.prems m0
    by (auto simp: nth_list_update nat_eq_iff)
qed

lemma writeSegment_spec:
  assumes "0 \<le> x" "1 \<le> len" "x + len \<le> WIDTH" "length row = 10"
  shows "length (writeSegment row x len c) = 10"
    and "\<And>i. 0 \<le> i \<Longrightarrow> i < WIDTH \<Longrightarrow>
           writeSegment row x len c ! nat i = (if x \<le> i \<and> i < x + len then c else row ! nat i)"
proof -
  have a: "-1 \<le> len - 1" "x + (len - 1) < int (length row)" "int (length row) \<le> WIDTH"
    using assms by auto
  from writeSegment_upto[OF assms(1) a, of c] assms(4)
  show "length (writeSegment row x len c) = 10"
    by (simp add: writeSegment_def)
  fix i :: int assume "0 \<le> i" "i < WIDTH"
  with writeSegment_upto[OF assms(1) a, of c] assms(4)
  show "writeSegment row x len c ! nat i = (if x \<le> i \<and> i < x + len then c else row ! nat i)"
    by (auto simp: writeSegment_def)
qed

lemma randomBelow_less: "0 < n \<Longrightarrow> fst (randomBelow n s) < n"
  by (simp add: randomBelow_def split: list.splits)

lemma randomBelow_counter [simp]: "blockCounter (snd (randomBelow n s)) = blockCounter s"
  by (simp add: randomBelow_def split: list.splits)


lemma finite_filledColumns [simp]: "finite (filledColumns v row)"
proof -
  have "filledColumns v row \<subseteq> {0 ..< WIDTH}" by (auto simp: filledColumns_iff)
  then show ?thesis using finite_subset by blast
qed

lemma rowInv_background_step:
  assumes inv: "rowInv v bc0 row spawned x s" and x: "x < WIDTH"
    and len: "1 \<le> len" "x + len \<le> WIDTH" and bc: "blockCounter s' = blockCounter s"
  shows "rowInv v bc0 (writeSegment row x len (makeCell (COLOR_BACKGROUND v) None)) spawned (x + len) s'"
proof -
  from inv have l: "length row = 10" and x0: "0 \<le> x" by (auto simp: rowInv_def)
  have same: "\<And>i. 0 \<le> i \<Longrightarrow> i < WIDTH \<Longrightarrow>
      writeSegment row x len (makeCell (COLOR_BACKGROUND v) None) ! nat i = row ! nat i"
    using writeSegment_spec(2)[OF x0 len l] inv by (auto simp: rowInv_def)
  have "idColumns (writeSegment row x len (makeCell (COLOR_BACKGROUND v) None)) = idColumns row"
    using same by (auto simp: idColumns_iff fun_eq_iff)
  moreover have "filledColumns v (writeSegment row x len (makeCell (COLOR_BACKGROUND v) None))
                   = filledColumns v row"
    using same by (auto simp: filledColumns_iff)
  ultimately show ?thesis
    using inv same writeSegment_spec(1)[OF x0 len l] len bc
    by (auto simp: rowInv_def)
qed

lemma rowInv_block_step:
  assumes inv: "rowInv v bc0 row spawned x s" and x: "x < WIDTH"
    and len: "1 \<le> len" "x + len \<le> WIDTH" "len \<le> 4" "spawned + len \<le> MAX_BLOCK_SPAWN"
    and bc: "blockCounter s' = blockCounter s + 1"
    and cid: "blockId c = Some (blockCounter s + 1)" and col: "\<not> isEmptyCell v c"
  shows "rowInv v bc0 (writeSegment row x len c) (spawned + len) (x + len) s'"
proof -
  let ?k = "blockCounter s + 1"
  let ?row = "writeSegment row x len c"
  from inv have l: "length row = 10" and x0: "0 \<le> x" by (auto simp: rowInv_def)
  note nth = writeSegment_spec(2)[OF x0 len(1,2) l, of _ c]
  have empty_right: "\<And>i. x \<le> i \<Longrightarrow> i < WIDTH \<Longrightarrow> row ! nat i = makeCell (COLOR_BACKGROUND v) None"
    using inv by (auto simp: rowInv_def)
  have empty_right_id: "\<And>i. x \<le> i \<Longrightarrow> i < WIDTH \<Longrightarrow> blockId (row ! nat i) = None"
    using empty_right by (simp add: makeCell_def)
  have empty_right_col: "\<And>i. x \<le> i \<Longrightarrow> i < WIDTH \<Longrightarrow> isEmptyCell v (row ! nat i)"
    using empty_right by (simp add: makeCell_def isEmptyCell_def)
  have old_ids: "\<And>b. idColumns row b \<noteq> {} \<Longrightarrow> b \<le> blockCounter s"
    using inv by (auto simp: rowInv_def)
  have idk: "idColumns ?row ?k = {x ..< x + len}"
  proof -
    have "idColumns row ?k = {}" using old_ids[of ?k] by auto
    then have "\<And>i. 0 \<le> i \<Longrightarrow> i < WIDTH \<Longrightarrow> blockId (row ! nat i) \<noteq> Some ?k"
      by (auto simp: idColumns_iff)
    then show ?thesis using nth x0 len cid
      by (auto simp: idColumns_iff split: if_splits)
  qed
  have idb: "\<And>b. b \<noteq> ?k \<Longrightarrow> idColumns ?row b = idColumns row b"
    using nth empty_right_id cid x0 by (auto simp: idColumns_iff split: if_splits)
  have filled: "filledColumns v ?row = filledColumns v row \<union> {x ..< x + len}"
    using nth col x0 len by (auto simp: filledColumns_iff split: if_splits)
  have disj: "filledColumns v row \<inter> {x ..< x + len} = {}"
    using empty_right_col len by (auto simp: filledColumns_iff)
  have card: "int (card (filledColumns v ?row)) = spawned + len"
  proof -
    have "card (filledColumns v ?row) = card (filledColumns v row) + card {x ..< x + len}"
      unfolding filled using disj by (intro card_Un_disjoint) auto
    then show ?thesis using inv len by (simp add: rowInv_def)
  qed
  have ids: "\<forall>b. idColumns ?row b \<noteq> {} \<longrightarrow>
             bc0 < b \<and> b \<le> blockCounter s'
             \<and> (\<exists>a n. 1 \<le> n \<and> n \<le> 4 \<and> idColumns ?row b = {a ..< a + n})"
  proof (intro allI impI)
    fix b assume ne: "idColumns ?row b \<noteq> {}"
    show "bc0 < b \<and> b \<le> blockCounter s'
             \<and> (\<exists>a n. 1 \<le> n \<and> n \<le> 4 \<and> idColumns ?row b = {a ..< a + n})"
    proof (cases "b = ?k")
      case True
      have "\<exists>a n. 1 \<le> n \<and> n \<le> 4 \<and> idColumns ?row ?k = {a ..< a + n}"
        using idk len by blast
      with True inv bc show ?thesis by (auto simp: rowInv_def)
    next
      case False
      with ne idb[OF False] inv bc show ?thesis by (auto simp: rowInv_def)
    qed
  qed
  have okc: "\<forall>i. 0 \<le> i \<and> i < WIDTH \<longrightarrow> (blockId (?row ! nat i) = None) = isEmptyCell v (?row ! nat i)"
    using nth col cid inv by (auto simp: rowInv_def)
  have right: "\<forall>i. x + len \<le> i \<and> i < WIDTH \<longrightarrow> ?row ! nat i = makeCell (COLOR_BACKGROUND v) None"
    using nth empty_right len x0 by auto
  have bc0: "bc0 \<le> blockCounter s'" using inv bc by (simp add: rowInv_def)
  show ?thesis
    unfolding rowInv_def
    using writeSegment_spec(1)[OF x0 len(1,2) l] x0 len card ids okc right bc0 inv
    by (simp add: rowInv_def)
qed


lemma genLoop_inv:
  "rowInv v bc0 row spawned x s \<Longrightarrow> genLoop v row spawned x s = (row', s') \<Longrightarrow>
   \<exists>spawned' x'. rowInv v bc0 row' spawned' x' s'"
proof (induction "nat (WIDTH - x)" arbitrary: row spawned x s rule: less_induct)
  case less
  show ?case
  proof (cases "x < WIDTH \<and> spawned < MAX_BLOCK_SPAWN")
    case False
    with less.prems(2) have "row' = row" "s' = s"
      using genLoop.simps[of v row spawned x s] by simp_all
    with less.prems(1) show ?thesis by blast
  next
    case True
    define maxLen where "maxLen = min 4 (min (MAX_BLOCK_SPAWN - spawned) (WIDTH - x))"
    have maxLen: "1 \<le> maxLen" "maxLen \<le> 4" "maxLen \<le> MAX_BLOCK_SPAWN - spawned" "maxLen \<le> WIDTH - x"
      using True by (auto simp: maxLen_def)
    obtain ci s1 where r1: "randomBelow (length (colors v)) s = (ci, s1)" by force
    obtain li s2 where r2: "randomBelow (nat maxLen) s1 = (li, s2)" by force
    define col where "col = colors v ! ci"
    define len where "len = 1 + int li"
    have "li < nat maxLen" using randomBelow_less[of "nat maxLen" s1] maxLen r2 by simp
    then have len: "1 \<le> len" "len \<le> 4" "spawned + len \<le> MAX_BLOCK_SPAWN" "x + len \<le> WIDTH"
      using maxLen by (auto simp: len_def)
    have bc2: "blockCounter s2 = blockCounter s"
      using randomBelow_counter[of "length (colors v)" s] randomBelow_counter[of "nat maxLen" s1] r1 r2
      by simp
    have smaller: "nat (WIDTH - (x + len)) < nat (WIDTH - x)" using len True by linarith
    show ?thesis
    proof (cases "col = COLOR_BACKGROUND v")
      case bg: True
      have eq: "genLoop v row spawned x s
                  = genLoop v (writeSegment row x len (makeCell (COLOR_BACKGROUND v) None)) spawned (x + len) s2"
        using genLoop.simps[of v row spawned x s] True maxLen(1) r1 r2 bg
        by (simp add: Let_def maxLen_def[symmetric] col_def[symmetric] len_def[symmetric])
      have "rowInv v bc0 (writeSegment row x len (makeCell (COLOR_BACKGROUND v) None)) spawned (x + len) s2"
        using rowInv_background_step[OF less.prems(1) _ len(1,4) bc2] True by simp
      from less.hyps[OF smaller this] less.prems(2) eq show ?thesis by simp
    next
      case fg: False
      define s3 where "s3 = s2\<lparr>blockCounter := blockCounter s2 + 1\<rparr>"
      define c where "c = makeCell col (Some (blockCounter s2 + 1))"
      have eq: "genLoop v row spawned x s = genLoop v (writeSegment row x len c) (spawned + len) (x + len) s3"
        using genLoop.simps[of v row spawned x s] True maxLen(1) r1 r2 fg
        by (simp add: Let_def maxLen_def[symmetric] col_def[symmetric] len_def[symmetric]
                      nextBlockId_def s3_def c_def)
      have "rowInv v bc0 (writeSegment row x len c) (spawned + len) (x + len) s3"
      proof (rule rowInv_block_step[OF less.prems(1) _ len(1,4,2,3)])
        show "x < WIDTH" using True by simp
        show "blockCounter s3 = blockCounter s + 1" by (simp add: s3_def bc2)
        show "blockId c = Some (blockCounter s + 1)" by (simp add: c_def makeCell_def bc2)
        show "\<not> isEmptyCell v c" using fg by (simp add: c_def makeCell_def isEmptyCell_def)
      qed
      from less.hyps[OF smaller this] less.prems(2) eq show ?thesis by simp
    qed
  qed
qed

lemma rowInv_initial:
  "rowInv v (blockCounter s) (replicate (nat WIDTH) (makeCell (COLOR_BACKGROUND v) None)) 0 0 s"
proof -
  let ?row = "replicate (nat WIDTH) (makeCell (COLOR_BACKGROUND v) None)"
  have nth: "\<And>i. 0 \<le> i \<Longrightarrow> i < WIDTH \<Longrightarrow> ?row ! nat i = makeCell (COLOR_BACKGROUND v) None"
    by simp
  have "filledColumns v ?row = {}"
    using nth by (auto simp: filledColumns_iff isEmptyCell_def makeCell_def)
  moreover have "\<And>b. idColumns ?row b = {}"
    using nth by (auto simp: idColumns_iff makeCell_def)
  moreover have "\<And>i. 0 \<le> i \<Longrightarrow> i < WIDTH \<Longrightarrow>
      (blockId (?row ! nat i) = None) = isEmptyCell v (?row ! nat i)"
    using nth by (simp add: isEmptyCell_def makeCell_def)
  ultimately show ?thesis
    unfolding rowInv_def using nth by auto
qed

lemma filled_count:
  assumes "length row = 10"
  shows "length (filter (\<lambda>c. \<not> isEmptyCell v c) row) = card (filledColumns v row)"
proof -
  have "length (filter (\<lambda>c. \<not> isEmptyCell v c) row)
          = card {i. i < length row \<and> \<not> isEmptyCell v (row ! i)}"
    by (rule length_filter_conv_card)
  also have "\<dots> = card (int ` {i. i < length row \<and> \<not> isEmptyCell v (row ! i)})"
    by (simp add: card_image)
  also have "int ` {i. i < length row \<and> \<not> isEmptyCell v (row ! i)} = filledColumns v row"
  proof
    show "int ` {i. i < length row \<and> \<not> isEmptyCell v (row ! i)} \<subseteq> filledColumns v row"
      using assms by (auto simp: filledColumns_iff)
    show "filledColumns v row \<subseteq> int ` {i. i < length row \<and> \<not> isEmptyCell v (row ! i)}"
    proof
      fix x assume "x \<in> filledColumns v row"
      then have "0 \<le> x" "x < WIDTH" "\<not> isEmptyCell v (row ! nat x)"
        by (auto simp: filledColumns_iff)
      then have "nat x \<in> {i. i < length row \<and> \<not> isEmptyCell v (row ! i)}" "x = int (nat x)"
        using assms by auto
      then show "x \<in> int ` {i. i < length row \<and> \<not> isEmptyCell v (row ! i)}" by blast
    qed
  qed
  finally show ?thesis .
qed

text \<open>
  Claim C6. Whatever the random draws, a row returned by \<open>generateNextRow\<close> has \<open>WIDTH\<close> cells,
  at most \<open>MAX_BLOCK_SPAWN = 7\<close> of them filled; a cell has no block id exactly when it is
  empty; and for every block id \<open>b\<close> that occurs in the row, \<open>b\<close> was allocated by this call
  (it is above the counter before the call and at most the counter after it) and the
  columns carrying \<open>b\<close> are one interval of 1 to 4 columns. So every maximal run of one id has
  length 1 to 4, two different runs never share an id, and the cells outside the runs are
  empty and carry no id.
\<close>

theorem generateNextRow_shape:
  assumes "generateNextRow v s = (row, s')"
  shows "length row = 10
         \<and> length (filter (\<lambda>c. \<not> isEmptyCell v c) row) \<le> 7
         \<and> (\<forall>x. 0 \<le> x \<and> x < WIDTH \<longrightarrow> (blockId (row ! nat x) = None) = isEmptyCell v (row ! nat x))
         \<and> (\<forall>b. idColumns row b \<noteq> {} \<longrightarrow>
                blockCounter s < b \<and> b \<le> blockCounter s'
                \<and> (\<exists>a n. 1 \<le> n \<and> n \<le> 4 \<and> idColumns row b = {a ..< a + n}))"
proof -
  from genLoop_inv[OF rowInv_initial, of v s row s'] assms
  obtain sp x' where inv: "rowInv v (blockCounter s) row sp x' s'"
    by (auto simp: generateNextRow_def)
  then have "length row = 10" by (simp add: rowInv_def)
  moreover from this inv have "length (filter (\<lambda>c. \<not> isEmptyCell v c) row) \<le> 7"
    by (simp add: filled_count rowInv_def)
  ultimately show ?thesis using inv by (simp add: rowInv_def)
qed


theorem generateNextRow_shape_witness:
  "generateNextRow IndexJs (initialState IndexJs [0, 3, 3, 1, 1, 2])
     = (exampleRow, (initialState IndexJs [])\<lparr>blockCounter := 2\<rparr>)
   \<and> length exampleRow = 10
   \<and> length (filter (\<lambda>c. \<not> isEmptyCell IndexJs c) exampleRow) \<le> 7
   \<and> (0 \<le> (4::int) \<and> (4::int) < WIDTH
        \<and> (blockId (exampleRow ! nat 4) = None) = isEmptyCell IndexJs (exampleRow ! nat 4))
   \<and> idColumns exampleRow 2 \<noteq> {}
   \<and> blockCounter (initialState IndexJs [0, 3, 3, 1, 1, 2]) < 2
   \<and> 2 \<le> blockCounter ((initialState IndexJs [])\<lparr>blockCounter := 2\<rparr>)
   \<and> (\<exists>a n. 1 \<le> n \<and> n \<le> 4 \<and> idColumns exampleRow 2 = {a ..< a + n})"
proof -
  have ev: "generateNextRow IndexJs (initialState IndexJs [0, 3, 3, 1, 1, 2])
              = (exampleRow, (initialState IndexJs [])\<lparr>blockCounter := 2\<rparr>)"
    by code_simp
  have ne: "idColumns exampleRow 2 \<noteq> {}"
    by code_simp
  note shape = generateNextRow_shape[OF ev]
  from shape have a: "length exampleRow = 10"
    and b: "length (filter (\<lambda>c. \<not> isEmptyCell IndexJs c) exampleRow) \<le> 7"
    by blast+
  from shape have "\<forall>x. 0 \<le> x \<and> x < WIDTH \<longrightarrow>
      (blockId (exampleRow ! nat x) = None) = isEmptyCell IndexJs (exampleRow ! nat x)"
    by blast
  then have "0 \<le> (4::int) \<and> (4::int) < WIDTH \<longrightarrow>
      (blockId (exampleRow ! nat 4) = None) = isEmptyCell IndexJs (exampleRow ! nat 4)"
    by (rule spec)
  then have c: "0 \<le> (4::int) \<and> (4::int) < WIDTH
        \<and> (blockId (exampleRow ! nat 4) = None) = isEmptyCell IndexJs (exampleRow ! nat 4)"
    by linarith
  from shape have "idColumns exampleRow 2 \<noteq> {} \<longrightarrow>
      blockCounter (initialState IndexJs [0, 3, 3, 1, 1, 2]) < 2
      \<and> 2 \<le> blockCounter ((initialState IndexJs [])\<lparr>blockCounter := 2\<rparr>)
      \<and> (\<exists>a n. 1 \<le> n \<and> n \<le> 4 \<and> idColumns exampleRow 2 = {a ..< a + n})"
    by blast
  with ne have d: "blockCounter (initialState IndexJs [0, 3, 3, 1, 1, 2]) < 2
      \<and> 2 \<le> blockCounter ((initialState IndexJs [])\<lparr>blockCounter := 2\<rparr>)
      \<and> (\<exists>a n. 1 \<le> n \<and> n \<le> 4 \<and> idColumns exampleRow 2 = {a ..< a + n})"
    by blast
  from ev a b c ne d show ?thesis by blast
qed

section \<open>What \<open>collectBlockCells\<close> returns\<close>

definition cellAt :: "cell list \<Rightarrow> pos \<Rightarrow> cell" where
  "cellAt g p = gridAt g (fst p) (snd p)"

definition onBoard :: "pos \<Rightarrow> bool" where
  "onBoard p = inb (fst p) (snd p)"

text \<open>The positions of the board that carry block id \<open>b\<close>.\<close>

definition idCells :: "cell list \<Rightarrow> nat \<Rightarrow> pos set" where
  "idCells g b = {p. onBoard p \<and> blockId (cellAt g p) = Some b}"

lemma cellAt_simp [simp]: "cellAt g (x, y) = gridAt g x y"
  by (simp add: cellAt_def)

lemma onBoard_simp [simp]: "onBoard (x, y) = inb x y"
  by (simp add: onBoard_def)

lemma visit_seen: "snd (foldl visitNeighbor st ns) = snd st \<union> set ns"
  by (induction ns arbitrary: st) (auto simp: visitNeighbor_def)

lemma visit_stack: "set (fst (foldl visitNeighbor st ns)) = set (fst st) \<union> (set ns - snd st)"
  by (induction ns arbitrary: st) (auto simp: visitNeighbor_def)

lemma visit_distinct:
  "distinct (fst st) \<Longrightarrow> set (fst st) \<subseteq> snd st \<Longrightarrow> distinct (fst (foldl visitNeighbor st ns))"
proof (induction ns arbitrary: st)
  case Nil
  then show ?case by simp
next
  case (Cons n ns)
  have "distinct (fst (visitNeighbor st n))" "set (fst (visitNeighbor st n)) \<subseteq> snd (visitNeighbor st n)"
    using Cons.prems by (auto simp: visitNeighbor_def)
  from Cons.IH[OF this] show ?case by simp
qed

lemma flood_mono: "set cells \<subseteq> set (flood g bid tv seen cells)"
  by (induction g bid tv seen cells rule: flood.induct) (auto simp: flood.simps)

lemma flood_sound:
  "p \<in> set (flood g bid tv seen cells) \<Longrightarrow>
   p \<in> set cells \<or> (onBoard p \<and> blockId (cellAt g p) = bid)"
proof (induction g bid tv seen cells rule: flood.induct)
  case (1 g bid seen cells)
  then show ?case by (simp add: flood.simps)
next
  case (2 g bid x y toVisit seen cells)
  then show ?case
    by (auto simp: flood.simps(2)[of g bid x y toVisit] inb_def split: if_splits)
qed

lemma flood_distinct:
  "distinct cells \<Longrightarrow> distinct tv \<Longrightarrow> set tv \<subseteq> seen \<Longrightarrow> set cells \<subseteq> seen \<Longrightarrow>
   set tv \<inter> set cells = {} \<Longrightarrow> distinct (flood g bid tv seen cells)"
proof (induction g bid tv seen cells rule: flood.induct)
  case (1 g bid seen cells)
  then show ?case by (simp add: flood.simps)
next
  case (2 g bid x y toVisit seen cells)
  let ?st = "foldl visitNeighbor (toVisit, seen) (neighbors x y)"
  show ?case
  proof (cases "x < 0 \<or> x \<ge> WIDTH \<or> y < 0 \<or> y \<ge> HEIGHT")
    case True
    with 2 show ?thesis by (auto simp: flood.simps(2)[of g bid x y toVisit])
  next
    case inside: False
    show ?thesis
    proof (cases "blockId (gridAt g x y) \<noteq> bid")
      case True
      with 2 inside show ?thesis by (auto simp: flood.simps(2)[of g bid x y toVisit])
    next
      case False
      have eq: "flood g bid ((x, y) # toVisit) seen cells
                  = flood g bid (fst ?st) (snd ?st) (cells @ [(x, y)])"
        using inside False by (simp add: flood.simps(2)[of g bid x y toVisit])
      have xy: "(x, y) \<in> seen" "(x, y) \<notin> set toVisit" "(x, y) \<notin> set cells"
        using "2.prems" by auto
      have a: "distinct (cells @ [(x, y)])" using "2.prems"(1) xy by simp
      have b: "distinct (fst ?st)"
        using visit_distinct[of "(toVisit, seen)" "neighbors x y"] "2.prems" by auto
      have c: "set (fst ?st) \<subseteq> snd ?st"
        using "2.prems" by (auto simp: visit_seen visit_stack)
      have d: "set (cells @ [(x, y)]) \<subseteq> snd ?st"
        using "2.prems" xy by (auto simp: visit_seen)
      have e: "set (fst ?st) \<inter> set (cells @ [(x, y)]) = {}"
        using "2.prems" xy by (auto simp: visit_stack)
      from "2.IH"(3)[OF inside False a b c d e] eq show ?thesis by simp
    qed
  qed
qed

text \<open>The result is closed under matching neighbours.\<close>

lemma flood_closed:
  assumes "\<forall>c \<in> set cells. set (neighbors (fst c) (snd c)) \<subseteq> seen"
    and "\<forall>p \<in> seen. p \<in> set tv \<or> p \<in> set cells \<or> \<not> (onBoard p \<and> blockId (cellAt g p) = bid)"
  shows "\<forall>c \<in> set (flood g bid tv seen cells). \<forall>n \<in> set (neighbors (fst c) (snd c)).
           onBoard n \<and> blockId (cellAt g n) = bid \<longrightarrow> n \<in> set (flood g bid tv seen cells)"
  using assms
proof (induction g bid tv seen cells rule: flood.induct)
  case (1 g bid seen cells)
  then show ?case by (auto simp: flood.simps)
next
  case (2 g bid x y toVisit seen cells)
  let ?st = "foldl visitNeighbor (toVisit, seen) (neighbors x y)"
  show ?case
  proof (cases "x < 0 \<or> x \<ge> WIDTH \<or> y < 0 \<or> y \<ge> HEIGHT")
    case True
    then have eq: "flood g bid ((x, y) # toVisit) seen cells = flood g bid toVisit seen cells"
      by (simp add: flood.simps(2)[of g bid x y toVisit])
    have "\<not> onBoard (x, y)" using True by (auto simp: inb_def)
    with "2.prems"(2)
    have "\<forall>p \<in> seen. p \<in> set toVisit \<or> p \<in> set cells \<or> \<not> (onBoard p \<and> blockId (cellAt g p) = bid)"
      by auto
    from "2.IH"(1)[OF True "2.prems"(1) this] eq show ?thesis by simp
  next
    case inside: False
    show ?thesis
    proof (cases "blockId (gridAt g x y) \<noteq> bid")
      case True
      then have eq: "flood g bid ((x, y) # toVisit) seen cells = flood g bid toVisit seen cells"
        using inside by (simp add: flood.simps(2)[of g bid x y toVisit])
      from True "2.prems"(2)
      have "\<forall>p \<in> seen. p \<in> set toVisit \<or> p \<in> set cells \<or> \<not> (onBoard p \<and> blockId (cellAt g p) = bid)"
        by auto
      from "2.IH"(2)[OF inside True "2.prems"(1) this] eq show ?thesis by simp
    next
      case False
      have eq: "flood g bid ((x, y) # toVisit) seen cells
                  = flood g bid (fst ?st) (snd ?st) (cells @ [(x, y)])"
        using inside False by (simp add: flood.simps(2)[of g bid x y toVisit])
      have a: "\<forall>c \<in> set (cells @ [(x, y)]). set (neighbors (fst c) (snd c)) \<subseteq> snd ?st"
        using "2.prems"(1) by (auto simp: visit_seen)
      have b: "\<forall>p \<in> snd ?st. p \<in> set (fst ?st) \<or> p \<in> set (cells @ [(x, y)])
                 \<or> \<not> (onBoard p \<and> blockId (cellAt g p) = bid)"
        using "2.prems"(2) by (auto simp: visit_seen visit_stack)
      from "2.IH"(3)[OF inside False a b] eq show ?thesis by simp
    qed
  qed
qed

lemma collectBlockCells_sound:
  "p \<in> set (collectBlockCells g x y bid) \<Longrightarrow> onBoard p \<and> blockId (cellAt g p) = bid"
  using flood_sound[of p g bid "[(x, y)]" "{(x, y)}" "[]"]
  by (auto simp: collectBlockCells_def split: option.splits)

lemma collectBlockCells_distinct: "distinct (collectBlockCells g x y bid)"
  using flood_distinct[of "[]" "[(x, y)]" "{(x, y)}" g bid]
  by (auto simp: collectBlockCells_def split: option.splits)

lemma collectBlockCells_start:
  assumes "inb x y" "blockId (gridAt g x y) = Some b"
  shows "(x, y) \<in> set (collectBlockCells g x y (Some b))"
proof -
  let ?st = "foldl visitNeighbor ([], {(x, y)}) (neighbors x y)"
  have "flood g (Some b) [(x, y)] {(x, y)} [] = flood g (Some b) (fst ?st) (snd ?st) ([] @ [(x, y)])"
    using assms by (simp add: flood.simps(2)[of g "Some b" x y "[]"] inb_def)
  then show ?thesis
    using flood_mono[of "[] @ [(x, y)]" g "Some b" "fst ?st" "snd ?st"]
    by (simp add: collectBlockCells_def)
qed

lemma collectBlockCells_closed:
  assumes "c \<in> set (collectBlockCells g x y (Some b))" "n \<in> set (neighbors (fst c) (snd c))"
    "onBoard n" "blockId (cellAt g n) = Some b"
  shows "n \<in> set (collectBlockCells g x y (Some b))"
  using flood_closed[of "[]" "{(x, y)}" "[(x, y)]" g "Some b"] assms
  by (auto simp: collectBlockCells_def)


section \<open>Gravity terminates\<close>

text \<open>\<open>board\<close> is the set of positions of the grid; \<open>filledCells\<close> the positions of the non-empty
  cells; \<open>potential\<close> adds up, over the non-empty cells, the row number plus one; \<open>usedCells\<close>
  are the positions whose cell is not the empty cell without id. \<open>applyMove\<close> is what
  \<open>applyGravity\<close> does to the grid for one block: clear its cells, then write them
  \<open>dropDistance\<close> rows further down.\<close>

definition board :: "pos set" where
  "board = {0 ..< WIDTH} \<times> {0 ..< HEIGHT}"

definition filledCells :: "variant \<Rightarrow> cell list \<Rightarrow> pos set" where
  "filledCells v g = {p \<in> board. \<not> isEmptyCell v (cellAt g p)}"

definition potential :: "variant \<Rightarrow> cell list \<Rightarrow> nat" where
  "potential v g = (\<Sum>p \<in> filledCells v g. nat (snd p) + 1)"

definition usedCells :: "variant \<Rightarrow> cell list \<Rightarrow> pos set" where
  "usedCells v g = {p \<in> board. \<not> isEmptyCell v (cellAt g p) \<or> blockId (cellAt g p) \<noteq> None}"

definition applyMove :: "variant \<Rightarrow> cell list \<Rightarrow> move \<Rightarrow> cell list" where
  "applyMove v g m =
     writeCells (clearCells v g (mv_cells m)) (mv_cells m) (dropDistance m) (mv_color m) (mv_blockId m)"

definition moveTargets :: "move \<Rightarrow> pos set" where
  "moveTargets m = (\<lambda>p. (fst p, snd p + dropDistance m)) ` set (mv_cells m)"

text \<open>A move as \<open>applyGravity\<close> makes it: a non-empty list of distinct board cells that all
  carry the block's id, a colour other than the background, and a positive distance at
  which every cell stays above the floor and lands on an empty cell.\<close>

definition validMove :: "variant \<Rightarrow> cell list \<Rightarrow> move \<Rightarrow> bool" where
  "validMove v g m =
     (mv_cells m \<noteq> [] \<and> distinct (mv_cells m)
      \<and> (\<forall>p \<in> set (mv_cells m). onBoard p \<and> blockId (cellAt g p) = mv_blockId m)
      \<and> mv_blockId m \<noteq> None \<and> mv_color m \<noteq> COLOR_BACKGROUND v
      \<and> 0 < dropDistance m \<and> landsFree v g (mv_cells m) (dropDistance m))"

lemma board_iff: "p \<in> board \<longleftrightarrow> onBoard p"
  by (cases p) (auto simp: board_def inb_def)

lemma finite_board [simp]: "finite board"
  by (simp add: board_def)

lemma finite_filledCells [simp]: "finite (filledCells v g)"
  by (simp add: filledCells_def)

lemma finite_usedCells [simp]: "finite (usedCells v g)"
  by (simp add: usedCells_def)

lemma validMove_targets:
  assumes "validMove v g m" "q \<in> moveTargets m"
  shows "onBoard q" "isEmptyCell v (cellAt g q)"
proof -
  from assms(2) obtain p where p: "p \<in> set (mv_cells m)" "q = (fst p, snd p + dropDistance m)"
    by (auto simp: moveTargets_def)
  from assms(1) p(1) have ob: "onBoard p" and d: "0 < dropDistance m"
    and lf: "landsFree v g (mv_cells m) (dropDistance m)"
    by (auto simp: validMove_def)
  from lf p(1) have "snd p + dropDistance m < HEIGHT"
      "isEmptyCell v (gridAt g (fst p) (snd p + dropDistance m))"
    by (auto simp: landsFree_def list_all_iff)
  with ob d p(2) show "onBoard q" "isEmptyCell v (cellAt g q)"
    by (auto simp: onBoard_def inb_def cellAt_def)
qed

lemma applyMove_length [simp]: "length (applyMove v g m) = length g"
  by (simp add: applyMove_def)

lemma applyMove_cellAt:
  assumes len: "length g = 200" and vm: "validMove v g m" and p: "onBoard p"
  shows "cellAt (applyMove v g m) p
           = (if p \<in> moveTargets m then makeCell (mv_color m) (mv_blockId m)
              else if p \<in> set (mv_cells m) then makeCell (COLOR_BACKGROUND v) None
              else cellAt g p)"
proof -
  obtain x y where xy: "p = (x, y)" by (cases p)
  have c: "\<forall>(x, y) \<in> set (mv_cells m). inb x y"
    using vm by (auto simp: validMove_def onBoard_def)
  have t: "\<forall>(x, y) \<in> set (mv_cells m). inb x (y + dropDistance m)"
  proof -
    have "\<And>a b. (a, b) \<in> set (mv_cells m) \<Longrightarrow> inb a (b + dropDistance m)"
    proof -
      fix a b assume "(a, b) \<in> set (mv_cells m)"
      then have "(a, b + dropDistance m) \<in> moveTargets m"
        by (force simp: moveTargets_def)
      from validMove_targets(1)[OF vm this] show "inb a (b + dropDistance m)" by simp
    qed
    then show ?thesis by auto
  qed
  have tgt: "(x, y) \<in> moveTargets m \<longleftrightarrow> (x, y - dropDistance m) \<in> set (mv_cells m)"
    by (force simp: moveTargets_def)
  have "inb x y" using p xy by simp
  then show ?thesis
    unfolding applyMove_def xy cellAt_simp
    using gridAt_writeCells[OF _ t, of "clearCells v g (mv_cells m)" x y "mv_color m" "mv_blockId m"]
      gridAt_clearCells[OF len c, of x y v] len tgt
    by simp
qed

lemma validMove_disjoint:
  assumes "validMove v g m"
  shows "moveTargets m \<inter> filledCells v g = {}"
  using validMove_targets(2)[OF assms] by (auto simp: filledCells_def)

lemma card_moveTargets:
  assumes "distinct (mv_cells m)"
  shows "card (moveTargets m) = length (mv_cells m)"
proof -
  have "inj_on (\<lambda>p. (fst p, snd p + dropDistance m)) (set (mv_cells m))"
    by (auto simp: inj_on_def prod_eq_iff)
  then show ?thesis
    unfolding moveTargets_def using assms by (simp add: card_image distinct_card)
qed

lemma applyMove_filled:
  assumes len: "length g = 200" and vm: "validMove v g m"
  shows "filledCells v (applyMove v g m)
           = (filledCells v g - set (mv_cells m)) \<union> moveTargets m"
proof -
  have col: "\<not> isEmptyCell v (makeCell (mv_color m) (mv_blockId m))"
    using vm by (simp add: validMove_def isEmptyCell_def makeCell_def)
  have emp: "isEmptyCell v (makeCell (COLOR_BACKGROUND v) None)"
    by (simp add: isEmptyCell_def makeCell_def)
  have tb: "moveTargets m \<subseteq> board"
    using validMove_targets(1)[OF vm] by (auto simp: board_iff)
  show ?thesis
    unfolding filledCells_def
    using applyMove_cellAt[OF len vm] col emp tb
    by (auto simp: board_iff split: if_splits)
qed

lemma applyMove_used:
  assumes len: "length g = 200" and vm: "validMove v g m"
  shows "usedCells v (applyMove v g m) = (usedCells v g - set (mv_cells m)) \<union> moveTargets m"
proof -
  have col: "\<not> isEmptyCell v (makeCell (mv_color m) (mv_blockId m))"
    using vm by (simp add: validMove_def isEmptyCell_def makeCell_def)
  have emp: "isEmptyCell v (makeCell (COLOR_BACKGROUND v) None)"
      "blockId (makeCell (COLOR_BACKGROUND v) None) = None"
    by (simp_all add: isEmptyCell_def makeCell_def)
  have tb: "moveTargets m \<subseteq> board"
    using validMove_targets(1)[OF vm] by (auto simp: board_iff)
  show ?thesis
    unfolding usedCells_def
    using applyMove_cellAt[OF len vm] col emp tb
    by (auto simp: board_iff split: if_splits)
qed

lemma applyMove_used_card:
  assumes len: "length g = 200" and vm: "validMove v g m"
  shows "card (usedCells v (applyMove v g m)) \<le> card (usedCells v g)"
proof -
  have sub: "set (mv_cells m) \<subseteq> usedCells v g"
    using vm by (auto simp: validMove_def usedCells_def board_iff)
  have "card (usedCells v (applyMove v g m))
          \<le> card (usedCells v g - set (mv_cells m)) + card (moveTargets m)"
    unfolding applyMove_used[OF len vm] by (rule card_Un_le)
  also have "card (usedCells v g - set (mv_cells m)) = card (usedCells v g) - card (set (mv_cells m))"
    using sub by (simp add: card_Diff_subset)
  also have "card (moveTargets m) = card (set (mv_cells m))"
    using card_moveTargets[of m] vm by (simp add: validMove_def distinct_card)
  also have "card (usedCells v g) - card (set (mv_cells m)) + card (set (mv_cells m)) = card (usedCells v g)"
    using sub by (simp add: card_mono)
  finally show ?thesis .
qed

lemma applyMove_potential:
  assumes len: "length g = 200" and vm: "validMove v g m"
  shows "potential v g < potential v (applyMove v g m)"
proof -
  let ?C = "set (mv_cells m)" and ?D = "moveTargets m" and ?F = "filledCells v g"
  let ?w = "\<lambda>p::pos. nat (snd p) + 1"
  have fin: "finite ?C" "finite ?D" "finite ?F" by (auto simp: moveTargets_def)
  have disj: "(?F - ?C) \<inter> ?D = {}" using validMove_disjoint[OF vm] by auto
  have new: "potential v (applyMove v g m) = sum ?w (?F - ?C) + sum ?w ?D"
    unfolding potential_def applyMove_filled[OF len vm]
    using disj fin by (simp add: sum.union_disjoint)
  have old: "potential v g = sum ?w (?F - ?C) + sum ?w (?F \<inter> ?C)"
  proof -
    have "?F = (?F - ?C) \<union> (?F \<inter> ?C)" by auto
    moreover have "(?F - ?C) \<inter> (?F \<inter> ?C) = {}" by auto
    ultimately show ?thesis
      unfolding potential_def using fin
      by (metis (no_types, lifting) finite_Diff finite_Int sum.union_disjoint)
  qed
  have inj: "inj_on (\<lambda>p. (fst p, snd p + dropDistance m)) ?C"
    by (auto simp: inj_on_def prod_eq_iff)
  have "sum ?w ?D = (\<Sum>p \<in> ?C. ?w (fst p, snd p + dropDistance m))"
    unfolding moveTargets_def using inj by (simp add: sum.reindex)
  moreover have "\<And>p. p \<in> ?C \<Longrightarrow> ?w p < ?w (fst p, snd p + dropDistance m)"
    using vm by (auto simp: validMove_def onBoard_def inb_def)
  moreover have "?C \<noteq> {}" using vm by (simp add: validMove_def)
  ultimately have "sum ?w ?C < sum ?w ?D"
    using fin by (simp add: sum_strict_mono)
  moreover have "sum ?w (?F \<inter> ?C) \<le> sum ?w ?C"
    using fin by (intro sum_mono2) auto
  ultimately show ?thesis using new old by linarith
qed

lemma potential_bound: "potential v g \<le> 4000"
proof -
  have "potential v g \<le> (\<Sum>p \<in> filledCells v g. 20)"
    unfolding potential_def
    by (intro sum_mono) (auto simp: filledCells_def board_def)
  also have "\<dots> = 20 * card (filledCells v g)" by simp
  also have "card (filledCells v g) \<le> card board"
    by (intro card_mono) (auto simp: filledCells_def)
  also have "card board = 200" by (simp add: board_def)
  finally show ?thesis by simp
qed

text \<open>The move \<open>applyGravity\<close> makes for the block found at \<open>(x, y)\<close>.\<close>

definition blockMove :: "cell list \<Rightarrow> int \<Rightarrow> int \<Rightarrow> nat \<Rightarrow> int \<Rightarrow> move" where
  "blockMove g x y b d =
     \<lparr>mv_cells = collectBlockCells g x y (Some b), mv_color = color (gridAt g x y),
      mv_blockId = Some b, dropDistance = d\<rparr>"

lemma gravityCell_cases:
  "\<exists>st'. gravityCell v cm (x, y) (g, P, mvs, moved) = Some st' \<and>
     ((isEmptyCell v (gridAt g x y) \<or> blockId (gridAt g x y) = None
        \<or> (\<exists>b. blockId (gridAt g x y) = Some b \<and> (b \<in> P \<or> collectBlockCells g x y (Some b) = [])))
       \<and> st' = (g, P, mvs, moved)
      \<or> (\<exists>b. \<not> isEmptyCell v (gridAt g x y) \<and> blockId (gridAt g x y) = Some b \<and> b \<notin> P
            \<and> collectBlockCells g x y (Some b) \<noteq> []
            \<and> dropLoop v g (collectBlockCells g x y (Some b)) 0 = Some 0
            \<and> st' = (g, insert b P, mvs, moved))
      \<or> (\<exists>b d. \<not> isEmptyCell v (gridAt g x y) \<and> blockId (gridAt g x y) = Some b \<and> b \<notin> P
            \<and> 0 < d \<and> dropLoop v g (collectBlockCells g x y (Some b)) 0 = Some d
            \<and> validMove v g (blockMove g x y b d)
            \<and> st' = (applyMove v g (blockMove g x y b d), insert b P,
                      (if cm then mvs @ [blockMove g x y b d] else mvs), True)))"
proof (cases "isEmptyCell v (gridAt g x y)")
  case True
  then show ?thesis by (simp add: gravityCell_def)
next
  case filled: False
  show ?thesis
  proof (cases "blockId (gridAt g x y)")
    case None
    with filled show ?thesis by (simp add: gravityCell_def)
  next
    case (Some b)
    show ?thesis
    proof (cases "b \<in> P \<or> collectBlockCells g x y (Some b) = []")
      case True
      with filled Some show ?thesis by (auto simp: gravityCell_def Let_def)
    next
      case False
      let ?cells = "collectBlockCells g x y (Some b)"
      from False have ne: "?cells \<noteq> []" and nP: "b \<notin> P" by auto
      from dropLoop_total[OF ne, of v g 0] obtain d where d: "dropLoop v g ?cells 0 = Some d" "0 \<le> d"
        "\<forall>k. 0 < k \<and> k \<le> d \<longrightarrow> landsFree v g ?cells k" by blast
      show ?thesis
      proof (cases "d = 0")
        case True
        with filled Some ne nP d(1) show ?thesis
          by (simp add: gravityCell_def Let_def)
      next
        case dpos: False
        with d(2) have pos: "0 < d" by simp
        with d(3) have lf: "landsFree v g ?cells d" by simp
        have vm: "validMove v g (blockMove g x y b d)"
          unfolding validMove_def blockMove_def
          using ne collectBlockCells_distinct[of g x y "Some b"]
                collectBlockCells_sound[of _ g x y "Some b"] filled pos lf
          by (auto simp: isEmptyCell_def)
        have "gravityCell v cm (x, y) (g, P, mvs, moved)
                = Some (applyMove v g (blockMove g x y b d), insert b P,
                        (if cm then mvs @ [blockMove g x y b d] else mvs), True)"
          using filled Some ne nP d(1) dpos
          by (simp add: gravityCell_def Let_def applyMove_def blockMove_def)
        with filled Some nP pos d(1) vm show ?thesis by auto
      qed
    qed
  qed
qed

lemma gravityCell_three:
  obtains "gravityCell v cm (x, y) (g, P, mvs, moved) = Some (g, P, mvs, moved)"
  | b where "gravityCell v cm (x, y) (g, P, mvs, moved) = Some (g, insert b P, mvs, moved)"
  | b m where "validMove v g m"
      "gravityCell v cm (x, y) (g, P, mvs, moved)
         = Some (applyMove v g m, insert b P, (if cm then mvs @ [m] else mvs), True)"
  using gravityCell_cases[of v cm x y g P mvs moved] by blast

lemma gravityCell_progress:
  assumes len: "length g = 200"
  shows "\<exists>g' P' mvs' moved'.
           gravityCell v cm p (g, P, mvs, moved) = Some (g', P', mvs', moved')
           \<and> length g' = 200 \<and> potential v g \<le> potential v g'
           \<and> card (usedCells v g') \<le> card (usedCells v g)
           \<and> (moved' = (moved \<or> potential v g < potential v g'))
           \<and> (\<not> moved' \<longrightarrow> g' = g \<and> mvs' = mvs)"
proof -
  obtain x y where p: "p = (x, y)" by (cases p)
  show ?thesis
  proof (rule gravityCell_three[of v cm x y g P mvs moved])
    assume "gravityCell v cm (x, y) (g, P, mvs, moved) = Some (g, P, mvs, moved)"
    with len show ?thesis unfolding p by simp
  next
    fix b assume "gravityCell v cm (x, y) (g, P, mvs, moved) = Some (g, insert b P, mvs, moved)"
    with len show ?thesis unfolding p by simp
  next
    fix b m assume vm: "validMove v g m"
      and eq: "gravityCell v cm (x, y) (g, P, mvs, moved)
         = Some (applyMove v g m, insert b P, (if cm then mvs @ [m] else mvs), True)"
    have "potential v g < potential v (applyMove v g m)"
      by (rule applyMove_potential[OF len vm])
    moreover have "card (usedCells v (applyMove v g m)) \<le> card (usedCells v g)"
      by (rule applyMove_used_card[OF len vm])
    ultimately show ?thesis
      unfolding p using eq len by simp
  qed
qed

lemma sweep_progress:
  "length g = 200 \<Longrightarrow>
   \<exists>g' P' mvs' moved'.
     sweep v cm ps (g, P, mvs, moved) = Some (g', P', mvs', moved')
     \<and> length g' = 200 \<and> potential v g \<le> potential v g'
     \<and> card (usedCells v g') \<le> card (usedCells v g)
     \<and> (moved' = (moved \<or> potential v g < potential v g'))
     \<and> (\<not> moved' \<longrightarrow> g' = g \<and> mvs' = mvs)"
proof (induction ps arbitrary: g P mvs moved)
  case Nil
  then show ?case by simp
next
  case (Cons p ps)
  from gravityCell_progress[OF Cons.prems, of v cm p P mvs moved]
  obtain g1 P1 mvs1 moved1 where 1:
    "gravityCell v cm p (g, P, mvs, moved) = Some (g1, P1, mvs1, moved1)"
    "length g1 = 200" "potential v g \<le> potential v g1"
    "card (usedCells v g1) \<le> card (usedCells v g)"
    "moved1 = (moved \<or> potential v g < potential v g1)"
    "\<not> moved1 \<longrightarrow> g1 = g \<and> mvs1 = mvs" by blast
  from Cons.IH[OF 1(2), of P1 mvs1 moved1]
  obtain g2 P2 mvs2 moved2 where 2:
    "sweep v cm ps (g1, P1, mvs1, moved1) = Some (g2, P2, mvs2, moved2)"
    "length g2 = 200" "potential v g1 \<le> potential v g2"
    "card (usedCells v g2) \<le> card (usedCells v g1)"
    "moved2 = (moved1 \<or> potential v g1 < potential v g2)"
    "\<not> moved2 \<longrightarrow> g2 = g1 \<and> mvs2 = mvs1" by blast
  have "sweep v cm (p # ps) (g, P, mvs, moved) = Some (g2, P2, mvs2, moved2)"
    using 1(1) 2(1) by simp
  moreover have "moved2 = (moved \<or> potential v g < potential v g2)"
    using 1(3,5) 2(3,5) by auto
  moreover have "\<not> moved2 \<longrightarrow> g2 = g \<and> mvs2 = mvs"
    using 1(6) 2(5,6) by auto
  moreover have "potential v g \<le> potential v g2" using 1(3) 2(3) by simp
  moreover have "card (usedCells v g2) \<le> card (usedCells v g)" using 1(4) 2(4) by simp
  ultimately show ?case using 2(2) by blast
qed

lemma gravityLoop_total:
  "length g = 200 \<Longrightarrow>
   \<exists>g' mvs' movedAny'.
     gravityLoop v cm g mvs movedAny = Some (g', mvs', movedAny')
     \<and> length g' = 200 \<and> card (usedCells v g') \<le> card (usedCells v g)
     \<and> potential v g \<le> potential v g'
     \<and> (movedAny' = (movedAny \<or> potential v g < potential v g'))
     \<and> (\<exists>P. sweep v cm scanOrder (g', {}, mvs', False) = Some (g', P, mvs', False))"
proof (induction "4000 - potential v g" arbitrary: g mvs movedAny rule: less_induct)
  case less
  from sweep_progress[OF less.prems, of v cm scanOrder "{}" mvs False]
  obtain g1 P1 mvs1 moved1 where 1:
    "sweep v cm scanOrder (g, {}, mvs, False) = Some (g1, P1, mvs1, moved1)"
    "length g1 = 200" "potential v g \<le> potential v g1"
    "card (usedCells v g1) \<le> card (usedCells v g)"
    "moved1 = (False \<or> potential v g < potential v g1)"
    "\<not> moved1 \<longrightarrow> g1 = g \<and> mvs1 = mvs" by blast
  show ?case
  proof (cases moved1)
    case False
    with 1(6) have same: "g1 = g" "mvs1 = mvs" by simp_all
    have sw: "sweep v cm scanOrder (g, {}, mvs, False) = Some (g, P1, mvs, False)"
      using 1(1) same False by simp
    have loop: "gravityLoop v cm g mvs movedAny = Some (g, mvs, movedAny)"
      by (subst gravityLoop.simps) (simp add: sw)
    show ?thesis
    proof (intro exI conjI)
      show "gravityLoop v cm g mvs movedAny = Some (g, mvs, movedAny)" by (rule loop)
      show "length g = 200" by (rule less.prems)
      show "card (usedCells v g) \<le> card (usedCells v g)" by simp
      show "potential v g \<le> potential v g" by simp
      show "movedAny = (movedAny \<or> potential v g < potential v g)" by simp
      show "sweep v cm scanOrder (g, {}, mvs, False) = Some (g, P1, mvs, False)" by (rule sw)
    qed
  next
    case True
    with 1(5) have lt: "potential v g < potential v g1" by simp
    have "4000 - potential v g1 < 4000 - potential v g"
      using lt potential_bound[of v g1] by linarith
    from less.hyps[OF this 1(2), of mvs1 True]
    obtain g' mvs' b' P' where 2: "gravityLoop v cm g1 mvs1 True = Some (g', mvs', b')"
      "length g' = 200" "card (usedCells v g') \<le> card (usedCells v g1)"
      "potential v g1 \<le> potential v g'" "b' = (True \<or> potential v g1 < potential v g')"
      "sweep v cm scanOrder (g', {}, mvs', False) = Some (g', P', mvs', False)" by blast
    have sw: "sweep v cm scanOrder (g, {}, mvs, False) = Some (g1, P1, mvs1, True)"
      using 1(1) True by simp
    have loop: "gravityLoop v cm g mvs movedAny = Some (g', mvs', b')"
      by (subst gravityLoop.simps) (simp add: sw 2(1))
    show ?thesis
    proof (intro exI conjI)
      show "gravityLoop v cm g mvs movedAny = Some (g', mvs', b')" by (rule loop)
      show "length g' = 200" by (rule 2(2))
      show "card (usedCells v g') \<le> card (usedCells v g)" using 1(4) 2(3) by simp
      show "potential v g \<le> potential v g'" using lt 2(4) by simp
      show "b' = (movedAny \<or> potential v g < potential v g')" using lt 2(4,5) by simp
      show "sweep v cm scanOrder (g', {}, mvs', False) = Some (g', P', mvs', False)" by (rule 2(6))
    qed
  qed
qed


section \<open>Line clearing and the unanimated settle loop\<close>

text \<open>\<open>gridFrame s s'\<close>: the state \<open>s'\<close> differs from \<open>s\<close> at most in the grid and the hover.\<close>

definition gridFrame :: "state \<Rightarrow> state \<Rightarrow> bool" where
  "gridFrame s s' =
     (topLine s' = topLine s \<and> selectedBlock s' = selectedBlock s \<and> score s' = score s
      \<and> nextRow s' = nextRow s \<and> selectionMoved s' = selectionMoved s
      \<and> fallingAnimation s' = fallingAnimation s \<and> blockCounter s' = blockCounter s
      \<and> randomSource s' = randomSource s \<and> more s' = more s)"

lemma gridFrame_refl [simp]: "gridFrame s s"
  by (simp add: gridFrame_def)

lemma gridFrame_trans: "gridFrame s s1 \<Longrightarrow> gridFrame s1 s2 \<Longrightarrow> gridFrame s s2"
  by (simp add: gridFrame_def)

definition rowCells :: "int \<Rightarrow> pos list" where
  "rowCells y = map (\<lambda>x. (x, y)) [0 .. WIDTH - 1]"

lemma set_rowCells: "set (rowCells y) = {p. 0 \<le> fst p \<and> fst p < WIDTH \<and> snd p = y}"
  by (auto simp: rowCells_def)

lemma clearRow_clearCells: "clearRow v g y = clearCells v g (rowCells y)"
  by (simp add: clearRow_def clearCells_def rowCells_def foldl_map)

lemma rowIsFull_iff:
  "rowIsFull v g y = (\<forall>p \<in> set (rowCells y). \<not> isEmptyCell v (cellAt g p))"
  by (auto simp: rowIsFull_def rowCells_def list_all_iff)

lemma clearRow_cellAt:
  assumes "length g = 200" "0 \<le> y" "y < HEIGHT" "onBoard p"
  shows "cellAt (clearRow v g y) p
           = (if snd p = y then makeCell (COLOR_BACKGROUND v) None else cellAt g p)"
proof -
  obtain a b where p: "p = (a, b)" by (cases p)
  have c: "\<forall>(x, y') \<in> set (rowCells y). inb x y'"
    using assms(2,3) by (auto simp: set_rowCells inb_def)
  have "inb a b" using assms(4) p by simp
  from gridAt_clearCells[OF assms(1) c this, of v] this show ?thesis
    unfolding clearRow_clearCells p by (auto simp: set_rowCells inb_def)
qed

lemma clearRow_used:
  assumes "length g = 200" "0 \<le> y" "y < HEIGHT"
  shows "usedCells v (clearRow v g y) = usedCells v g - set (rowCells y)"
  unfolding usedCells_def
  using clearRow_cellAt[OF assms]
  by (auto simp: board_iff set_rowCells isEmptyCell_def makeCell_def inb_def onBoard_def
           split: if_splits)

lemma card_rowCells: "card (set (rowCells y)) = 10"
proof -
  have "distinct (rowCells y)"
    by (simp add: rowCells_def distinct_map inj_on_def)
  then have "card (set (rowCells y)) = length (rowCells y)" by (rule distinct_card)
  then show ?thesis by (simp add: rowCells_def)
qed

lemma clearLine_spec:
  assumes "length g = 200" "0 \<le> y" "y < HEIGHT"
  shows "length (fst (clearLine v (g, c) y)) = 200
         \<and> card (usedCells v (fst (clearLine v (g, c) y))) + 10 * snd (clearLine v (g, c) y)
             = card (usedCells v g) + 10 * c
         \<and> c \<le> snd (clearLine v (g, c) y)"
proof (cases "rowIsFull v g y")
  case False
  then show ?thesis using assms by (simp add: clearLine_def)
next
  case True
  have sub: "set (rowCells y) \<subseteq> usedCells v g"
    using True assms(2,3) by (auto simp: rowIsFull_iff usedCells_def board_iff set_rowCells inb_def onBoard_def)
  have "card (usedCells v (clearRow v g y)) = card (usedCells v g) - 10"
    unfolding clearRow_used[OF assms]
    using sub by (simp add: card_Diff_subset card_rowCells)
  moreover have "10 \<le> card (usedCells v g)"
    using card_mono[OF _ sub] by (simp add: card_rowCells)
  ultimately show ?thesis
    using True assms by (simp add: clearLine_def clearRow_clearCells)
qed

lemma clearLines_spec:
  assumes "length g = 200" "\<forall>y \<in> set ys. 0 \<le> y \<and> y < HEIGHT"
  shows "length (fst (foldl (clearLine v) (g, c) ys)) = 200
         \<and> card (usedCells v (fst (foldl (clearLine v) (g, c) ys)))
               + 10 * snd (foldl (clearLine v) (g, c) ys)
             = card (usedCells v g) + 10 * c
         \<and> c \<le> snd (foldl (clearLine v) (g, c) ys)"
  using assms
proof (induction ys arbitrary: g c)
  case Nil
  then show ?case by simp
next
  case (Cons y ys)
  obtain g1 c1 where 1: "clearLine v (g, c) y = (g1, c1)" by force
  from clearLine_spec[OF Cons.prems(1), of y v c] Cons.prems(2) 1
  have a: "length g1 = 200" "card (usedCells v g1) + 10 * c1 = card (usedCells v g) + 10 * c" "c \<le> c1"
    by auto
  from Cons.IH[OF a(1), of c1] Cons.prems(2)
  have b: "length (fst (foldl (clearLine v) (g1, c1) ys)) = 200"
    "card (usedCells v (fst (foldl (clearLine v) (g1, c1) ys)))
               + 10 * snd (foldl (clearLine v) (g1, c1) ys)
             = card (usedCells v g1) + 10 * c1"
    "c1 \<le> snd (foldl (clearLine v) (g1, c1) ys)" by auto
  show ?case using a b 1 by simp
qed

text \<open>What \<open>clearFullLines\<close> changes: the grid, and the hover when a line was cleared.\<close>

lemma clearFullLines_spec:
  assumes "length (grid s) = 200" "clearFullLines v s = (cleared, s')"
  shows "length (grid s') = 200"
    and "card (usedCells v (grid s')) + 10 * cleared = card (usedCells v (grid s))"
    and "gridFrame s s'"
    and "cleared = 0 \<Longrightarrow> hoveredBlock s' = hoveredBlock s"
proof -
  obtain g c where gc: "foldl (clearLine v) (grid s, 0) [0 .. HEIGHT - 1] = (g, c)" by force
  from clearLines_spec[OF assms(1), of "[0 .. HEIGHT - 1]" v 0] gc
  have g: "length g = 200" "card (usedCells v g) + 10 * c = card (usedCells v (grid s))"
    by auto
  from assms(2) gc have eq: "cleared = c"
      "s' = (if c > 0 then s\<lparr>grid := g, hoveredBlock := None\<rparr> else s\<lparr>grid := g\<rparr>)"
    by (auto simp: clearFullLines_def)
  from eq g show "length (grid s') = 200" by (simp split: if_splits)
  from eq g show "card (usedCells v (grid s')) + 10 * cleared = card (usedCells v (grid s))"
    by (simp split: if_splits)
  from eq show "gridFrame s s'" by (simp add: gridFrame_def split: if_splits)
  from eq show "cleared = 0 \<Longrightarrow> hoveredBlock s' = hoveredBlock s" by simp
qed

lemma applyGravity_total:
  assumes "length (grid s) = 200"
  shows "\<exists>moved mvs s'. applyGravity v cm s = Some ((moved, mvs), s')
           \<and> length (grid s') = 200
           \<and> card (usedCells v (grid s')) \<le> card (usedCells v (grid s))
           \<and> gridFrame s s' \<and> hoveredBlock s' = hoveredBlock s"
proof (cases "selectedBlock s \<noteq> None \<or> fallingAnimation s \<noteq> None")
  case True
  then have "applyGravity v cm s = Some ((False, []), s)" by (simp add: applyGravity_def)
  with assms show ?thesis by (intro exI[of _ False] exI[of _ "[]"] exI[of _ s]) simp
next
  case False
  from gravityLoop_total[OF assms, of v cm "[]" False]
  obtain g' mvs' b' where 1: "gravityLoop v cm (grid s) [] False = Some (g', mvs', b')"
    "length g' = 200" "card (usedCells v g') \<le> card (usedCells v (grid s))" by blast
  have "applyGravity v cm s = Some ((b', mvs'), s\<lparr>grid := g'\<rparr>)"
    using False 1(1) by (simp add: applyGravity_def)
  with 1 show ?thesis
    by (intro exI[of _ b'] exI[of _ mvs'] exI[of _ "s\<lparr>grid := g'\<rparr>"]) (simp add: gridFrame_def)
qed

text \<open>The cleared-line count of each round of the unanimated loop of \<open>settleBoard\<close>, in order.\<close>

partial_function (option) settleRounds :: "variant \<Rightarrow> state \<Rightarrow> nat list option" where
  "settleRounds v s =
     (case applyGravity v False s of
        None \<Rightarrow> None
      | Some (gravityResult, s1) \<Rightarrow>
          (case clearFullLines v s1 of
             (cleared, s2) \<Rightarrow>
               if cleared = 0 then Some []
               else Option.bind (settleRounds v s2) (\<lambda>rounds. Some (cleared # rounds))))"

lemma settleLoop_total:
  "length (grid s) = 200 \<Longrightarrow>
   \<exists>rounds s'. settleRounds v s = Some rounds
     \<and> settleLoop v s t = Some (t + sum_list rounds, s')
     \<and> length (grid s') = 200
     \<and> card (usedCells v (grid s')) \<le> card (usedCells v (grid s))
     \<and> gridFrame s s'
     \<and> (sum_list rounds = 0 \<longrightarrow> hoveredBlock s' = hoveredBlock s)"
proof (induction "card (usedCells v (grid s))" arbitrary: s t rule: less_induct)
  case less
  from applyGravity_total[OF less.prems, of v False]
  obtain moved mvs s1 where 1: "applyGravity v False s = Some ((moved, mvs), s1)"
    "length (grid s1) = 200" "card (usedCells v (grid s1)) \<le> card (usedCells v (grid s))"
    "gridFrame s s1" "hoveredBlock s1 = hoveredBlock s" by blast
  obtain cleared s2 where c: "clearFullLines v s1 = (cleared, s2)" by force
  note 2 = clearFullLines_spec[OF 1(2) c]
  show ?case
  proof (cases "cleared = 0")
    case True
    have r: "settleRounds v s = Some []"
      by (subst settleRounds.simps) (simp add: 1(1) c True)
    have l: "settleLoop v s t = Some (t + sum_list [], s2)"
      by (subst settleLoop.simps) (simp add: 1(1) c True)
    show ?thesis
    proof (intro exI conjI)
      show "settleRounds v s = Some []" by (rule r)
      show "settleLoop v s t = Some (t + sum_list [], s2)" by (rule l)
      show "length (grid s2) = 200" by (rule 2(1))
      show "card (usedCells v (grid s2)) \<le> card (usedCells v (grid s))" using 2(2) 1(3) by simp
      show "gridFrame s s2" using gridFrame_trans[OF 1(4) 2(3)] .
      show "sum_list [] = (0::nat) \<longrightarrow> hoveredBlock s2 = hoveredBlock s"
        using 2(4)[OF True] 1(5) by simp
    qed
  next
    case False
    have lt: "card (usedCells v (grid s2)) < card (usedCells v (grid s))"
      using 2(2) 1(3) False by linarith
    from less.hyps[OF lt 2(1), of "t + cleared"]
    obtain rounds s' where 3: "settleRounds v s2 = Some rounds"
      "settleLoop v s2 (t + cleared) = Some (t + cleared + sum_list rounds, s')"
      "length (grid s') = 200" "card (usedCells v (grid s')) \<le> card (usedCells v (grid s2))"
      "gridFrame s2 s'" by blast
    have r: "settleRounds v s = Some (cleared # rounds)"
      by (subst settleRounds.simps) (simp add: 1(1) c False 3(1))
    have l: "settleLoop v s t = Some (t + sum_list (cleared # rounds), s')"
      by (subst settleLoop.simps) (simp add: 1(1) c False 3(2) add.assoc)
    show ?thesis
    proof (intro exI conjI)
      show "settleRounds v s = Some (cleared # rounds)" by (rule r)
      show "settleLoop v s t = Some (t + sum_list (cleared # rounds), s')" by (rule l)
      show "length (grid s') = 200" by (rule 3(3))
      show "card (usedCells v (grid s')) \<le> card (usedCells v (grid s))" using 3(4) lt by simp
      show "gridFrame s s'" using gridFrame_trans[OF gridFrame_trans[OF 1(4) 2(3)] 3(5)] .
      show "sum_list (cleared # rounds) = 0 \<longrightarrow> hoveredBlock s' = hoveredBlock s"
        using False by simp
    qed
  qed
qed


section \<open>The unanimated settle and the row probe\<close>

text \<open>The board on which \<open>rowWouldClearLines\<close> runs its trial: selection, hover and animation
  suspended, rows shifted up, the candidate row inserted at the bottom.\<close>

definition probeBoard :: "variant \<Rightarrow> cell list \<Rightarrow> state \<Rightarrow> state" where
  "probeBoard v row s =
     insertBottomRow row
       (moveBlocksUp v (s\<lparr>hoveredBlock := None, selectedBlock := None, fallingAnimation := None\<rparr>))"

text \<open>A board whose bottom row is full, and nothing else.\<close>

definition fullRowBoard :: "variant \<Rightarrow> state" where
  "fullRowBoard v =
     (initialState v [])
       \<lparr>grid := writeCells (writeCells (writeCells (grid (initialState v []))
                   [(0, 19), (1, 19), (2, 19), (3, 19)] 0 ''green'' (Some 1))
                   [(4, 19), (5, 19), (6, 19)] 0 ''white'' (Some 2))
                   [(7, 19), (8, 19), (9, 19)] 0 ''blue'' (Some 3),
        blockCounter := 3\<rparr>"

lemma copyCell_id: "copyCell c = c"
  by (cases c) (simp add: copyCell_def)

lemma cloneGridCells_id: "cloneGridCells g = g"
  by (simp add: cloneGridCells_def copyCell_id map_idI)

lemma length_shiftRow:
  "length (foldl (\<lambda>g x. gridSet g x (y - 1) (copyCell (gridAt g x y))) g xs) = length g"
  by (induction xs arbitrary: g) simp_all

lemma length_shiftRows:
  "length (foldl (\<lambda>g y. foldl (\<lambda>g x. gridSet g x (y - 1) (copyCell (gridAt g x y))) g xs)
             g ys) = length g"
  by (induction ys arbitrary: g) (simp_all add: length_shiftRow)

lemma length_constRow:
  "length (foldl (\<lambda>g x. gridSet g x y c) g xs) = length g"
  by (induction xs arbitrary: g) simp_all

lemma length_copyRow:
  "length (foldl (\<lambda>g x. gridSet g x y (copyCell (row ! nat x))) g xs) = length g"
  by (induction xs arbitrary: g) simp_all

lemma moveBlocksUp_length [simp]: "length (grid (moveBlocksUp v s)) = length (grid s)"
  by (simp add: moveBlocksUp_def Let_def length_constRow length_shiftRows)

lemma insertBottomRow_length [simp]: "length (grid (insertBottomRow row s)) = length (grid s)"
  by (simp add: insertBottomRow_def length_copyRow)

lemma restore_nth:
  "n \<le> length g \<Longrightarrow>
   length (foldl (\<lambda>g i. g[i := snap ! i]) g [0 ..< n]) = length g
   \<and> (\<forall>j < length g. foldl (\<lambda>g i. g[i := snap ! i]) g [0 ..< n] ! j
                         = (if j < n then snap ! j else g ! j))"
proof (induction n)
  case 0
  then show ?case by simp
next
  case (Suc n)
  then show ?case by (auto simp: nth_list_update less_Suc_eq)
qed

lemma restoreGrid:
  assumes "length (grid s) = length snap"
  shows "grid (restoreGridFromSnapshot snap s) = snap"
proof -
  have "foldl (\<lambda>g i. g[i := snap ! i]) (grid s) [0 ..< length (grid s)] = snap"
  proof (rule nth_equalityI)
    show "length (foldl (\<lambda>g i. g[i := snap ! i]) (grid s) [0 ..< length (grid s)]) = length snap"
      using restore_nth[of "length (grid s)" "grid s" snap] assms by simp
  next
    fix j assume "j < length (foldl (\<lambda>g i. g[i := snap ! i]) (grid s) [0 ..< length (grid s)])"
    then have "j < length (grid s)"
      using restore_nth[of "length (grid s)" "grid s" snap] by simp
    then show "foldl (\<lambda>g i. g[i := snap ! i]) (grid s) [0 ..< length (grid s)] ! j = snap ! j"
      using restore_nth[of "length (grid s)" "grid s" snap] by simp
  qed
  then show ?thesis by (simp add: restoreGridFromSnapshot_def copyCell_id)
qed

lemma settleBoardWith_unanimated:
  "settleBoardWith spawn v False None s
     = (case settleLoop v s 0 of
          None \<Rightarrow> None
        | Some (totalCleared, s1) \<Rightarrow>
            Some (totalCleared,
                  if totalCleared \<noteq> 0 then s1\<lparr>score := score s1 + totalCleared\<rparr> else s1))"
  by (subst settleBoardWith.simps) (simp add: runOnComplete_def split: option.splits)

text \<open>
  Claim C8. On a grid of \<open>WIDTH * HEIGHT\<close> cells, \<open>settleBoard({ animate: false })\<close> returns:
  its loop ends, the value returned is the sum of the line counts cleared in the successive
  gravity and clear rounds, and the score after the call is the score before plus that sum
  (so it is unchanged when the sum is 0). No animation is started: \<open>fallingAnimation\<close> is
  what it was, as are the selection, \<open>topLine\<close>, the next row, the block counter and the
  random source.
\<close>

theorem settleBoard_unanimated:
  assumes "length (grid s) = 200"
  shows "\<exists>rounds s'.
           settleRounds v s = Some rounds
           \<and> settleBoard v False None s = Some (sum_list rounds, s')
           \<and> score s' = score s + sum_list rounds
           \<and> fallingAnimation s' = fallingAnimation s
           \<and> selectedBlock s' = selectedBlock s \<and> topLine s' = topLine s
           \<and> nextRow s' = nextRow s \<and> selectionMoved s' = selectionMoved s
           \<and> blockCounter s' = blockCounter s \<and> randomSource s' = randomSource s
           \<and> length (grid s') = 200"
proof -
  from settleLoop_total[OF assms, of v 0]
  obtain rounds s1 where 1: "settleRounds v s = Some rounds"
    "settleLoop v s 0 = Some (sum_list rounds, s1)" "length (grid s1) = 200" "gridFrame s s1"
    by auto
  let ?s' = "if sum_list rounds \<noteq> 0 then s1\<lparr>score := score s1 + sum_list rounds\<rparr> else s1"
  have "settleBoard v False None s = Some (sum_list rounds, ?s')"
    by (simp add: settleBoard_def settleBoardWith_unanimated 1(2))
  with 1 show ?thesis
    by (intro exI[of _ rounds] exI[of _ ?s']) (simp add: gridFrame_def)
qed

theorem settleBoard_unanimated_witness:
  "length (grid (fullRowBoard IndexJs)) = 200
   \<and> (\<exists>rounds s'.
         settleRounds IndexJs (fullRowBoard IndexJs) = Some rounds
         \<and> settleBoard IndexJs False None (fullRowBoard IndexJs) = Some (sum_list rounds, s')
         \<and> score s' = score (fullRowBoard IndexJs) + sum_list rounds
         \<and> fallingAnimation s' = fallingAnimation (fullRowBoard IndexJs))"
proof -
  have len: "length (grid (fullRowBoard IndexJs)) = 200"
    by (simp add: fullRowBoard_def initialState_def)
  from settleBoard_unanimated[OF len, of IndexJs] len show ?thesis by blast
qed

lemma length_rowWrite:
  "length (foldl (\<lambda>g x. gridSet g x y (c g x)) g xs) = length g"
  by (induction xs arbitrary: g) (simp_all add: gridSet_def)

lemma gridAt_rowWrite:
  assumes "length g = 200" "0 \<le> y" "y < HEIGHT" "\<forall>x \<in> set xs. 0 \<le> x \<and> x < WIDTH" "inb x' y'"
  shows "gridAt (foldl (\<lambda>g x. gridSet g x y (c x)) g xs) x' y'
           = (if y' = y \<and> x' \<in> set xs then c x' else gridAt g x' y')"
  using assms(4)
proof (induction xs rule: rev_induct)
  case Nil
  then show ?case by simp
next
  case (snoc x xs)
  let ?G = "foldl (\<lambda>g x. gridSet g x y (c x)) g xs"
  have len: "length ?G = 200" using assms(1) length_rowWrite[of y "\<lambda>g x. c x" g xs] by simp
  have inb: "inb x y" using snoc.prems assms(2,3) by (simp add: inb_def)
  from snoc have IH: "gridAt ?G x' y' = (if y' = y \<and> x' \<in> set xs then c x' else gridAt g x' y')"
    by simp
  show ?case
    using gridAt_gridSet[OF len inb assms(5), of "c x"] IH by auto
qed

lemma gridAt_shiftRow:
  assumes "length g = 200" "1 \<le> y" "y < HEIGHT" "\<forall>x \<in> set xs. 0 \<le> x \<and> x < WIDTH" "inb x' y'"
  shows "gridAt (foldl (\<lambda>g x. gridSet g x (y - 1) (copyCell (gridAt g x y))) g xs) x' y'
           = (if y' = y - 1 \<and> x' \<in> set xs then gridAt g x' y else gridAt g x' y')"
  using assms(4,5)
proof (induction xs arbitrary: x' y' rule: rev_induct)
  case Nil
  then show ?case by simp
next
  case (snoc x xs)
  let ?G = "foldl (\<lambda>g x. gridSet g x (y - 1) (copyCell (gridAt g x y))) g xs"
  have len: "length ?G = 200"
    using assms(1) length_rowWrite[of "y - 1" "\<lambda>g x. copyCell (gridAt g x y)" g xs] by simp
  have inb1: "inb x (y - 1)" and inb: "inb x y" using snoc.prems(1) assms(2,3) by (simp_all add: inb_def)
  have xs: "\<forall>x \<in> set xs. 0 \<le> x \<and> x < WIDTH" using snoc.prems(1) by simp
  have src: "gridAt ?G x y = gridAt g x y" using snoc.IH[OF xs inb] by simp
  have IH: "gridAt ?G x' y' = (if y' = y - 1 \<and> x' \<in> set xs then gridAt g x' y else gridAt g x' y')"
    using snoc.IH[OF xs snoc.prems(2)] .
  show ?case
    using gridAt_gridSet[OF len inb1 snoc.prems(2), of "copyCell (gridAt ?G x y)"] IH src
    by (auto simp: copyCell_id)
qed

lemma gridAt_shiftRows:
  assumes len: "length g = 200"
  shows "inb x' y' \<Longrightarrow> int k < HEIGHT \<Longrightarrow>
         gridAt (foldl (\<lambda>g y. foldl (\<lambda>g x. gridSet g x (y - 1) (copyCell (gridAt g x y)))
                                g [0 .. WIDTH - 1]) g [1 .. int k]) x' y'
           = (if y' < int k then gridAt g x' (y' + 1) else gridAt g x' y')"
proof (induction k arbitrary: x' y')
  case 0
  then show ?case by (simp add: inb_def)
next
  case (Suc k)
  let ?row = "\<lambda>g y. foldl (\<lambda>g x. gridSet g x (y - 1) (copyCell (gridAt g x y))) g [0 .. WIDTH - 1]"
  let ?G = "foldl ?row g [1 .. int k]"
  have split: "[1 .. int (Suc k)] = [1 .. int k] @ [int k + 1]"
    using upto_rec2[of 1 "int k + 1"] by (simp add: add.commute)
  have lenG: "length ?G = 200" using len by (simp add: length_shiftRows)
  have k: "int k < HEIGHT" using Suc.prems by simp
  have xs: "\<forall>x \<in> set [0 .. WIDTH - 1]. 0 \<le> x \<and> x < WIDTH" by simp
  have y: "1 \<le> int k + 1" "int k + 1 < HEIGHT" using Suc.prems by simp_all
  have x': "x' \<in> set [0 .. WIDTH - 1]" using Suc.prems(1) by (simp add: inb_def)
  have inb2: "inb x' (int k + 1)" using Suc.prems by (simp add: inb_def)
  have "gridAt (foldl ?row g [1 .. int (Suc k)]) x' y' = gridAt (?row ?G (int k + 1)) x' y'"
    unfolding split by simp
  also have "\<dots> = (if y' = int k then gridAt ?G x' (int k + 1) else gridAt ?G x' y')"
    using gridAt_shiftRow[OF lenG y xs Suc.prems(1)] x' by simp
  also have "gridAt ?G x' (int k + 1) = gridAt g x' (int k + 1)"
    using Suc.IH[OF inb2 k] by simp
  also have "gridAt ?G x' y' = (if y' < int k then gridAt g x' (y' + 1) else gridAt g x' y')"
    using Suc.IH[OF Suc.prems(1) k] .
  finally show ?case by auto
qed

lemma moveBlocksUp_gridAt:
  assumes "length (grid s) = 200" "inb x y"
  shows "gridAt (grid (moveBlocksUp v s)) x y
           = (if y = HEIGHT - 1 then makeCell (COLOR_BACKGROUND v) None
              else gridAt (grid s) x (y + 1))"
proof -
  let ?g1 = "foldl (\<lambda>g y. foldl (\<lambda>g x. gridSet g x (y - 1) (copyCell (gridAt g x y)))
                                 g [0 .. WIDTH - 1]) (grid s) [1 .. HEIGHT - 1]"
  have len1: "length ?g1 = 200" using assms(1) by (simp add: length_shiftRows)
  have g1: "gridAt ?g1 x y = (if y < HEIGHT - 1 then gridAt (grid s) x (y + 1) else gridAt (grid s) x y)"
    using gridAt_shiftRows[OF assms(1) assms(2), of 19] by simp
  have xs: "\<forall>x \<in> set [0 .. WIDTH - 1]. 0 \<le> x \<and> x < WIDTH" by simp
  have x: "x \<in> set [0 .. WIDTH - 1]" using assms(2) by (simp add: inb_def)
  have "gridAt (grid (moveBlocksUp v s)) x y
          = (if y = HEIGHT - 1 \<and> x \<in> set [0 .. WIDTH - 1] then makeCell (COLOR_BACKGROUND v) None
             else gridAt ?g1 x y)"
    unfolding moveBlocksUp_def Let_def
    using gridAt_rowWrite[OF len1 _ _ xs assms(2), of "HEIGHT - 1" "\<lambda>x. makeCell (COLOR_BACKGROUND v) None"]
    by simp
  with g1 x assms(2) show ?thesis by (auto simp: inb_def)
qed

lemma insertBottomRow_gridAt:
  assumes "length (grid s) = 200" "inb x y"
  shows "gridAt (grid (insertBottomRow row s)) x y
           = (if y = HEIGHT - 1 then row ! nat x else gridAt (grid s) x y)"
proof -
  have xs: "\<forall>x \<in> set [0 .. WIDTH - 1]. 0 \<le> x \<and> x < WIDTH" by simp
  have x: "x \<in> set [0 .. WIDTH - 1]" using assms(2) by (simp add: inb_def)
  show ?thesis
    unfolding insertBottomRow_def
    using gridAt_rowWrite[OF assms(1) _ _ xs assms(2), of "HEIGHT - 1" "\<lambda>x. copyCell (row ! nat x)"] x
    by (simp add: copyCell_id)
qed

text \<open>The flat grid whose rows 0 to 18 are the rows 1 to 19 of \<open>g\<close> and whose row 19 is \<open>row\<close>,
  and the board the candidate row is tried on: that grid, one more line counted, and no
  selection, hover or animation.\<close>

definition gridWithRow :: "cell list \<Rightarrow> cell list \<Rightarrow> cell list" where
  "gridWithRow g row = drop (nat WIDTH) g @ take (nat WIDTH) row"

definition trialBoard :: "cell list \<Rightarrow> state \<Rightarrow> state" where
  "trialBoard row s =
     s\<lparr>grid := gridWithRow (grid s) row, topLine := topLine s + 1,
       hoveredBlock := None, selectedBlock := None, fallingAnimation := None\<rparr>"

lemma gridAt_nth:
  assumes "j < 200"
  shows "inb (int j mod 10) (int j div 10) \<and> nat (idx (int j mod 10) (int j div 10)) = j"
  using assms by (auto simp: inb_def idx_def)

lemma gridWithRow_gridAt:
  assumes "length g = 200" "length row = 10" "inb x y"
  shows "gridAt (gridWithRow g row) x y = (if y = HEIGHT - 1 then row ! nat x else gridAt g x (y + 1))"
proof -
  from assms(3) have b: "0 \<le> x" "x < 10" "0 \<le> y" "y < 20" by (simp_all add: inb_def)
  have i: "nat (idx x y) = nat y * 10 + nat x" using b by (simp add: idx_def nat_add_distrib nat_mult_distrib)
  show ?thesis
  proof (cases "y = HEIGHT - 1")
    case True
    then have "nat (idx x y) = 190 + nat x" using i by simp
    then show ?thesis using True assms(1,2) b
      by (simp add: gridAt_def gridWithRow_def nth_append)
  next
    case False
    then have y: "y < 19" using b by simp
    then have lt: "nat y * 10 + nat x < 190" using b by linarith
    have i2: "nat (idx x (y + 1)) = 10 + (nat y * 10 + nat x)"
      using b by (simp add: idx_def nat_add_distrib nat_mult_distrib)
    show ?thesis using False assms(1,2) lt
      by (simp add: gridAt_def gridWithRow_def nth_append i i2)
  qed
qed

lemma grid_eqI:
  assumes "length g = 200" "length g' = 200" "\<And>x y. inb x y \<Longrightarrow> gridAt g x y = gridAt g' x y"
  shows "g = g'"
proof (rule nth_equalityI)
  show "length g = length g'" using assms by simp
next
  fix j assume "j < length g"
  then have j: "j < 200" using assms(1) by simp
  from gridAt_nth[OF j] assms(3)[of "int j mod 10" "int j div 10"]
  show "g ! j = g' ! j" by (simp add: gridAt_def)
qed

lemma probeBoard_trialBoard:
  assumes "length (grid s) = 200" "length row = 10"
  shows "probeBoard v row s = trialBoard row s"
proof -
  let ?s1 = "s\<lparr>hoveredBlock := None, selectedBlock := None, fallingAnimation := None\<rparr>"
  have len1: "length (grid (moveBlocksUp v ?s1)) = 200" using assms(1) by simp
  have "grid (probeBoard v row s) = gridWithRow (grid s) row"
  proof (rule grid_eqI)
    show "length (grid (probeBoard v row s)) = 200" using assms(1) by (simp add: probeBoard_def)
    show "length (gridWithRow (grid s) row) = 200" using assms by (simp add: gridWithRow_def)
  next
    fix x y assume inb: "inb x y"
    have "gridAt (grid (probeBoard v row s)) x y
            = (if y = HEIGHT - 1 then row ! nat x else gridAt (grid s) x (y + 1))"
      unfolding probeBoard_def insertBottomRow_gridAt[OF len1 inb]
      using moveBlocksUp_gridAt[of ?s1 x y v] assms(1) inb by simp
    then show "gridAt (grid (probeBoard v row s)) x y = gridAt (gridWithRow (grid s) row) x y"
      using gridWithRow_gridAt[OF assms inb] by simp
  qed
  then show ?thesis
    by (simp add: probeBoard_def trialBoard_def insertBottomRow_def moveBlocksUp_def Let_def)
qed


lemma clearLine_mono: "snd st \<le> snd (clearLine v st y)"
  by (simp add: clearLine_def)

lemma clearLines_mono: "snd st \<le> snd (foldl (clearLine v) st ys)"
proof (induction ys arbitrary: st)
  case Nil
  then show ?case by simp
next
  case (Cons y ys)
  from clearLine_mono[of st v y] Cons.IH[of "clearLine v st y"] show ?case by simp
qed

lemma clearLines_positive:
  "(c < snd (foldl (clearLine v) (g, c) ys)) = list_ex (rowIsFull v g) ys"
proof (induction ys arbitrary: g c)
  case Nil
  then show ?case by simp
next
  case (Cons y ys)
  show ?case
  proof (cases "rowIsFull v g y")
    case True
    then have st: "clearLine v (g, c) y = (clearRow v g y, c + 1)" by (simp add: clearLine_def)
    from clearLines_mono[of "(clearRow v g y, c + 1)" v ys]
    have "c < snd (foldl (clearLine v) (clearRow v g y, c + 1) ys)" by simp
    with True show ?thesis by (simp only: foldl_Cons st list_ex_iff list.set bex_simps insert_iff simp_thms)
  next
    case False
    then have st: "clearLine v (g, c) y = (g, c)" by (simp add: clearLine_def)
    from Cons.IH[of c g] False show ?thesis by (simp only: foldl_Cons st list_ex_iff) auto
  qed
qed

lemma clearFullLines_positive:
  "(0 < fst (clearFullLines v s)) = list_ex (rowIsFull v (grid s)) [0 .. HEIGHT - 1]"
  using clearLines_positive[of 0 v "grid s" "[0 .. HEIGHT - 1]"]
  by (simp add: clearFullLines_def Let_def case_prod_beta)

lemma set_scanOrder: "set scanOrder = board"
proof -
  have "set scanOrder = (\<Union>y \<in> {0 .. HEIGHT - 1}. (\<lambda>x. (x, y)) ` {0 .. WIDTH - 1})"
    by (simp add: scanOrder_def)
  also have "\<dots> = board"
    unfolding board_def by (auto simp: image_iff)
  finally show ?thesis .
qed

text \<open>Grids that gravity leaves as they are.\<close>

lemma gravityCell_still:
  assumes "\<And>b. \<not> isEmptyCell v (gridAt g x y) \<Longrightarrow> blockId (gridAt g x y) = Some b \<Longrightarrow>
            dropLoop v g (collectBlockCells g x y (Some b)) 0 = Some 0"
  shows "\<exists>P'. gravityCell v cm (x, y) (g, P, mvs, False) = Some (g, P', mvs, False)"
proof (cases "isEmptyCell v (gridAt g x y)")
  case True
  then show ?thesis by (simp add: gravityCell_def)
next
  case False
  show ?thesis
  proof (cases "blockId (gridAt g x y)")
    case None
    with False show ?thesis by (simp add: gravityCell_def)
  next
    case (Some b)
    from assms[OF False Some] False Some show ?thesis
      by (simp add: gravityCell_def Let_def)
  qed
qed

definition atRest :: "variant \<Rightarrow> cell list \<Rightarrow> pos \<Rightarrow> bool" where
  "atRest v g p =
     (\<forall>b. \<not> isEmptyCell v (cellAt g p) \<and> blockId (cellAt g p) = Some b \<longrightarrow>
          dropLoop v g (collectBlockCells g (fst p) (snd p) (Some b)) 0 = Some 0)"

lemma sweep_still:
  "\<forall>p \<in> set ps. atRest v g p \<Longrightarrow>
   \<exists>P'. sweep v cm ps (g, P, mvs, False) = Some (g, P', mvs, False)"
proof (induction ps arbitrary: P)
  case Nil
  then show ?case by simp
next
  case (Cons p ps)
  obtain x y where xy: "p = (x, y)" by (cases p)
  from Cons.prems xy have "atRest v g (x, y)" by simp
  then have "\<And>b. \<not> isEmptyCell v (gridAt g x y) \<Longrightarrow> blockId (gridAt g x y) = Some b \<Longrightarrow>
            dropLoop v g (collectBlockCells g x y (Some b)) 0 = Some 0"
    by (simp add: atRest_def)
  from gravityCell_still[of v g x y cm P mvs, OF this]
  obtain P1 where 1: "gravityCell v cm p (g, P, mvs, False) = Some (g, P1, mvs, False)"
    using xy by blast
  from Cons.prems have "\<forall>p \<in> set ps. atRest v g p" by simp
  from Cons.IH[OF this, of P1] 1 show ?case by simp
qed

lemma applyGravity_still:
  assumes "selectedBlock s = None" "fallingAnimation s = None"
    "\<forall>p \<in> set scanOrder. atRest v (grid s) p"
  shows "applyGravity v cm s = Some ((False, []), s)"
proof -
  from sweep_still[OF assms(3), of cm "{}" "[]"]
  obtain P' where "sweep v cm scanOrder (grid s, {}, [], False) = Some (grid s, P', [], False)"
    by blast
  then have "gravityLoop v cm (grid s) [] False = Some (grid s, [], False)"
    by (subst gravityLoop.simps) simp
  with assms(1,2) show ?thesis by (simp add: applyGravity_def)
qed

text \<open>\<open>supported\<close>: under every cell that carries a block id there is the floor or a cell
  that is not empty.\<close>

definition supported :: "variant \<Rightarrow> cell list \<Rightarrow> bool" where
  "supported v g =
     (\<forall>x y. inb x y \<and> blockId (gridAt g x y) \<noteq> None \<and> y + 1 < HEIGHT
            \<longrightarrow> \<not> isEmptyCell v (gridAt g x (y + 1)))"

lemma dropLoop_supported:
  assumes "cells \<noteq> []"
    and "snd (hd cells) + 1 < HEIGHT \<Longrightarrow> \<not> isEmptyCell v (gridAt g (fst (hd cells)) (snd (hd cells) + 1))"
  shows "dropLoop v g cells 0 = Some 0"
proof -
  obtain x y cs where c: "cells = (x, y) # cs" using assms(1) by (cases cells) auto
  with assms(2) have "dropBlocked v g cells 0" by auto
  then show ?thesis by (subst dropLoop.simps) simp
qed

lemma supported_atRest:
  assumes "supported v g" "onBoard p"
  shows "atRest v g p"
  unfolding atRest_def
proof (intro allI impI)
  fix b assume h: "\<not> isEmptyCell v (cellAt g p) \<and> blockId (cellAt g p) = Some b"
  obtain x y where xy: "p = (x, y)" by (cases p)
  let ?cells = "collectBlockCells g x y (Some b)"
  from assms(2) xy have inb: "inb x y" by simp
  from h xy have bid: "blockId (gridAt g x y) = Some b" by simp
  from collectBlockCells_start[OF inb bid] have ne: "?cells \<noteq> []" by auto
  then have "hd ?cells \<in> set ?cells" by simp
  from collectBlockCells_sound[OF this]
  have hd: "inb (fst (hd ?cells)) (snd (hd ?cells))"
    "blockId (gridAt g (fst (hd ?cells)) (snd (hd ?cells))) = Some b"
    by (simp_all add: onBoard_def cellAt_def)
  have "dropLoop v g ?cells 0 = Some 0"
  proof (rule dropLoop_supported[OF ne])
    assume "snd (hd ?cells) + 1 < HEIGHT"
    with assms(1) hd show "\<not> isEmptyCell v (gridAt g (fst (hd ?cells)) (snd (hd ?cells) + 1))"
      unfolding supported_def by auto
  qed
  then show "dropLoop v g (collectBlockCells g (fst p) (snd p) (Some b)) 0 = Some 0"
    using xy by simp
qed

lemma applyGravity_supported:
  assumes "selectedBlock s = None" "fallingAnimation s = None" "supported v (grid s)"
  shows "applyGravity v cm s = Some ((False, []), s)"
proof (rule applyGravity_still[OF assms(1,2)])
  show "\<forall>p \<in> set scanOrder. atRest v (grid s) p"
    using supported_atRest[OF assms(3)] by (simp add: set_scanOrder board_iff)
qed

text \<open>A full row of three blocks.\<close>

definition fullRow :: "cell list" where
  "fullRow =
     [Cell ''green'' (Some 1), Cell ''green'' (Some 1), Cell ''green'' (Some 1),
      Cell ''green'' (Some 1), Cell ''white'' (Some 2), Cell ''white'' (Some 2),
      Cell ''white'' (Some 2), Cell ''blue'' (Some 3), Cell ''blue'' (Some 3),
      Cell ''blue'' (Some 3)]"

lemma rowWouldClearLines_trial:
  assumes "length (grid s) = 200" and "length row = 10"
  shows "\<exists>rounds res sg s'.
           applyGravity v False (trialBoard row s) = Some (res, sg)
           \<and> settleRounds v (trialBoard row s) = Some rounds
           \<and> settleBoard v False None (trialBoard row s) = Some (sum_list rounds, s')
           \<and> (0 < sum_list rounds) = list_ex (rowIsFull v (grid sg)) [0 .. HEIGHT - 1]
           \<and> rowWouldClearLines v (Some row) s = Some (0 < sum_list rounds, s)
           \<and> rowWouldClearLines v None s = Some (False, s)"
proof -
  define s2 where "s2 = trialBoard row s"
  have pb: "probeBoard v row s = s2" unfolding s2_def by (rule probeBoard_trialBoard[OF assms])
  have len2: "length (grid s2) = 200" using assms by (simp add: s2_def trialBoard_def gridWithRow_def)
  from settleLoop_total[OF len2, of v 0]
  obtain rounds s3 where 1: "settleRounds v s2 = Some rounds"
    "settleLoop v s2 0 = Some (sum_list rounds, s3)"
    "length (grid s3) = 200" "gridFrame s2 s3"
    by auto
  from applyGravity_total[OF len2, of v False]
  obtain moved mvs sg where g: "applyGravity v False s2 = Some ((moved, mvs), sg)" by blast
  obtain cleared sc where c: "clearFullLines v sg = (cleared, sc)" by force
  have pos: "(0 < sum_list rounds) = (0 < cleared)"
  proof (cases "cleared = 0")
    case True
    have "settleRounds v s2 = Some []"
      by (subst settleRounds.simps) (simp add: g c True)
    with 1(1) True show ?thesis by simp
  next
    case False
    have "settleRounds v s2 = Option.bind (settleRounds v sc) (\<lambda>rounds. Some (cleared # rounds))"
      by (subst settleRounds.simps) (simp add: g c False)
    with 1(1) obtain r where "rounds = cleared # r" by (auto split: bind_splits)
    with False show ?thesis by simp
  qed
  have full: "(0 < sum_list rounds) = list_ex (rowIsFull v (grid sg)) [0 .. HEIGHT - 1]"
    using clearFullLines_positive[of v sg] c pos by simp
  define s4 where "s4 = (if sum_list rounds \<noteq> 0 then s3\<lparr>score := score s3 + sum_list rounds\<rparr> else s3)"
  have sb: "settleBoardWith spawn v False None s2 = Some (sum_list rounds, s4)" for spawn
    by (simp add: settleBoardWith_unanimated 1(2) s4_def)
  have len4: "length (grid s4) = length (grid s)" using 1(3) assms(1) by (simp add: s4_def)
  have fr2: "nextRow s2 = nextRow s" "selectionMoved s2 = selectionMoved s"
    "blockCounter s2 = blockCounter s" "randomSource s2 = randomSource s" "state.more s2 = state.more s"
    by (simp_all add: s2_def trialBoard_def)
  have fr: "nextRow s4 = nextRow s" "selectionMoved s4 = selectionMoved s"
    "blockCounter s4 = blockCounter s" "randomSource s4 = randomSource s" "state.more s4 = state.more s"
    using 1(4) fr2 by (simp_all add: gridFrame_def s4_def)
  define s5 where "s5 = (restoreGridFromSnapshot (grid s) s4)
                \<lparr>topLine := topLine s, score := score s, hoveredBlock := hoveredBlock s,
                 selectedBlock := selectedBlock s, fallingAnimation := fallingAnimation s\<rparr>"
  have restored: "s5 = s"
  proof (rule state.equality)
    show "grid s5 = grid s"
      using restoreGrid[OF len4] by (simp add: s5_def)
  qed (simp_all add: s5_def fr restoreGridFromSnapshot_def)
  have "rowWouldClearLines v (Some row) s = Some (0 < sum_list rounds, s5)"
    unfolding rowWouldClearLines_def
    using sb[of "\<lambda>_. None", folded pb, unfolded probeBoard_def]
    by (simp add: Let_def cloneGridCells_id s5_def)
  moreover have "settleBoard v False None s2 = Some (sum_list rounds, s4)"
    using sb by (simp add: settleBoard_def)
  moreover have "rowWouldClearLines v None s = Some (False, s)"
    by (simp add: rowWouldClearLines_def)
  ultimately have "applyGravity v False s2 = Some ((moved, mvs), sg)
      \<and> settleRounds v s2 = Some rounds
      \<and> settleBoard v False None s2 = Some (sum_list rounds, s4)
      \<and> (0 < sum_list rounds) = list_ex (rowIsFull v (grid sg)) [0 .. HEIGHT - 1]
      \<and> rowWouldClearLines v (Some row) s = Some (0 < sum_list rounds, s)
      \<and> rowWouldClearLines v None s = Some (False, s)"
    using g 1(1) full restored by simp
  then show ?thesis unfolding s2_def
    by (intro exI[of _ rounds] exI[of _ "(moved, mvs)"] exI[of _ sg] exI[of _ s4])
qed

lemma gridAt_initial:
  "inb x y \<Longrightarrow> gridAt (grid (initialState v rs)) x y = makeCell (COLOR_BACKGROUND v) None"
  using idx_bound[of x y] by (simp add: gridAt_def initialState_def)

text \<open>
  Claim C2. For a grid of \<open>WIDTH * HEIGHT\<close> cells and a candidate row of \<open>WIDTH\<close> cells,
  \<open>rowWouldClearLines\<close> returns. Its answer is whether inserting the row leads to a line
  clear: on the trial board (the rows shifted up by one, the candidate row as row 19, no
  selection, hover or animation) the unanimated settle clears at least one line, which is
  the case exactly when that board has a full row once gravity has been applied to it. The
  state after the call is the state before it, in every variable: grid cells, score,
  \<open>topLine\<close>, selection, hover and animation, and the others as well. Without a row the
  answer is false and nothing changes.
\<close>

theorem rowWouldClearLines_probe:
  assumes "length (grid s) = 200" and "length row = 10"
  shows "\<exists>rounds res sg s'.
           applyGravity v False (trialBoard row s) = Some (res, sg)
           \<and> settleRounds v (trialBoard row s) = Some rounds
           \<and> settleBoard v False None (trialBoard row s) = Some (sum_list rounds, s')
           \<and> (0 < sum_list rounds) = list_ex (rowIsFull v (grid sg)) [0 .. HEIGHT - 1]
           \<and> rowWouldClearLines v (Some row) s = Some (0 < sum_list rounds, s)
           \<and> rowWouldClearLines v None s = Some (False, s)"
  by (rule rowWouldClearLines_trial[OF assms])

text \<open>The probe of a full row on an empty board while an animation is in flight: the row
  would clear a line, and the animation is back in its slot afterwards.\<close>

theorem rowWouldClearLines_probe_witness:
  "length (grid (animatingState IndexJs)) = 200 \<and> length fullRow = 10
   \<and> fallingAnimation (animatingState IndexJs) = Some exampleAnimation
   \<and> rowWouldClearLines IndexJs (Some fullRow) (animatingState IndexJs)
       = Some (True, animatingState IndexJs)"
proof -
  let ?s = "animatingState IndexJs"
  let ?s2 = "trialBoard fullRow ?s"
  have len: "length (grid ?s) = 200" by (simp add: animatingState_def initialState_def)
  have row: "length fullRow = 10" by (simp add: fullRow_def)
  have an: "fallingAnimation ?s = Some exampleAnimation" by (simp add: animatingState_def)
  have at: "gridAt (grid ?s2) x y
              = (if y = HEIGHT - 1 then fullRow ! nat x else makeCell (COLOR_BACKGROUND IndexJs) None)"
    if "inb x y" for x y
  proof -
    have "y \<noteq> HEIGHT - 1 \<Longrightarrow> inb x (y + 1)" using that by (simp add: inb_def)
    then show ?thesis
      using gridWithRow_gridAt[OF len row that] gridAt_initial[of x "y + 1" IndexJs "[]"]
      by (simp add: trialBoard_def animatingState_def)
  qed
  have filled: "\<not> isEmptyCell IndexJs (fullRow ! n)" if "n < 10" for n
  proof -
    have "list_all (\<lambda>c. \<not> isEmptyCell IndexJs c) fullRow"
      by (simp add: fullRow_def isEmptyCell_def)
    with that row show ?thesis by (simp add: list_all_length)
  qed
  have sup: "supported IndexJs (grid ?s2)"
    unfolding supported_def
  proof (intro allI impI)
    fix x y
    assume h: "inb x y \<and> blockId (gridAt (grid ?s2) x y) \<noteq> None \<and> y + 1 < HEIGHT"
    then have "blockId (gridAt (grid ?s2) x y) = None"
      using at[of x y] by (simp add: makeCell_def)
    with h show "\<not> isEmptyCell IndexJs (gridAt (grid ?s2) x (y + 1))" by simp
  qed
  have g: "applyGravity IndexJs False ?s2 = Some ((False, []), ?s2)"
    by (rule applyGravity_supported[OF _ _ sup]) (simp_all add: trialBoard_def)
  have "rowIsFull IndexJs (grid ?s2) (HEIGHT - 1)"
    unfolding rowIsFull_def list_all_iff
  proof
    fix x assume "x \<in> set [0 .. WIDTH - 1]"
    then have x: "0 \<le> x" "x < 10" by simp_all
    then have "inb x (HEIGHT - 1)" by (simp add: inb_def)
    from at[OF this] filled[of "nat x"] x
    show "\<not> isEmptyCell IndexJs (gridAt (grid ?s2) x (HEIGHT - 1))" by simp
  qed
  then have ex: "list_ex (rowIsFull IndexJs (grid ?s2)) [0 .. HEIGHT - 1]"
    by (auto simp: list_ex_iff intro: bexI[of _ 19])
  from rowWouldClearLines_probe[OF len row, of IndexJs] g ex
  have "rowWouldClearLines IndexJs (Some fullRow) ?s = Some (True, ?s)" by auto
  with len row an show ?thesis by simp
qed

section \<open>Which row \<open>spawnBlocks\<close> inserts\<close>

text \<open>\<open>genFrame s s'\<close>: \<open>s'\<close> differs from \<open>s\<close> at most in the block counter, which has not
  decreased, and in the random draws left.\<close>

definition genFrame :: "state \<Rightarrow> state \<Rightarrow> bool" where
  "genFrame s s' =
     (grid s' = grid s \<and> topLine s' = topLine s \<and> selectedBlock s' = selectedBlock s
      \<and> hoveredBlock s' = hoveredBlock s \<and> score s' = score s \<and> nextRow s' = nextRow s
      \<and> selectionMoved s' = selectionMoved s \<and> fallingAnimation s' = fallingAnimation s
      \<and> blockCounter s \<le> blockCounter s')"

text \<open>The answer of the probe for the row held in \<open>nextRow\<close>.\<close>

definition wouldClear :: "variant \<Rightarrow> state \<Rightarrow> bool" where
  "wouldClear v s =
     (case rowWouldClearLines v (nextRow s) s of None \<Rightarrow> False | Some (b, s') \<Rightarrow> b)"

definition emptyRow :: "variant \<Rightarrow> cell list" where
  "emptyRow v = replicate (nat WIDTH) (makeCell (COLOR_BACKGROUND v) None)"

text \<open>The state in which \<open>spawnBlocks\<close> shifts the rows and inserts \<open>nextRow\<close>, when the retry
  loop ended after \<open>attempts\<close> regenerations in state \<open>s1\<close>.\<close>

definition afterReroll :: "variant \<Rightarrow> nat \<Rightarrow> state \<Rightarrow> state" where
  "afterReroll v attempts s1 =
     (if attempts \<ge> 20 then s1\<lparr>nextRow := Some (emptyRow v)\<rparr> else s1)"

text \<open>The initial board with a row held in \<open>nextRow\<close>.\<close>

definition heldRowState :: "variant \<Rightarrow> state" where
  "heldRowState v = (initialState v [])\<lparr>nextRow := Some exampleRow\<rparr>"

lemma genFrame_refl [simp]: "genFrame s s"
  by (simp add: genFrame_def)

lemma genFrame_trans: "genFrame s s1 \<Longrightarrow> genFrame s1 s2 \<Longrightarrow> genFrame s s2"
  by (auto simp: genFrame_def)

lemma randomBelow_frame: "genFrame s (snd (randomBelow n s))"
  by (simp add: randomBelow_def genFrame_def split: list.splits)

lemma genLoop_frame:
  "genLoop v row spawned x s = (row', s') \<Longrightarrow> genFrame s s'"
proof (induction "nat (WIDTH - x)" arbitrary: row spawned x s rule: less_induct)
  case less
  show ?case
  proof (cases "x < WIDTH \<and> spawned < MAX_BLOCK_SPAWN")
    case False
    with less.prems have "s' = s"
      using genLoop.simps[of v row spawned x s] by simp
    then show ?thesis by simp
  next
    case True
    define maxLen where "maxLen = min 4 (min (MAX_BLOCK_SPAWN - spawned) (WIDTH - x))"
    have maxLen: "1 \<le> maxLen" using True by (auto simp: maxLen_def)
    obtain ci s1 where r1: "randomBelow (length (colors v)) s = (ci, s1)" by force
    obtain li s2 where r2: "randomBelow (nat maxLen) s1 = (li, s2)" by force
    define col where "col = colors v ! ci"
    define len where "len = 1 + int li"
    have "genFrame s s1" using randomBelow_frame[of s "length (colors v)"] r1 by simp
    moreover have "genFrame s1 s2" using randomBelow_frame[of s1 "nat maxLen"] r2 by simp
    ultimately have f2: "genFrame s s2" by (rule genFrame_trans)
    have smaller: "nat (WIDTH - (x + len)) < nat (WIDTH - x)"
      using True by (simp add: len_def)
    show ?thesis
    proof (cases "col = COLOR_BACKGROUND v")
      case bg: True
      have eq: "genLoop v row spawned x s
                  = genLoop v (writeSegment row x len (makeCell (COLOR_BACKGROUND v) None)) spawned (x + len) s2"
        using genLoop.simps[of v row spawned x s] True maxLen r1 r2 bg
        by (simp add: Let_def maxLen_def[symmetric] col_def[symmetric] len_def[symmetric])
      from less.hyps[OF smaller] less.prems eq have "genFrame s2 s'" by simp
      with f2 show ?thesis by (rule genFrame_trans)
    next
      case fg: False
      define s3 where "s3 = s2\<lparr>blockCounter := blockCounter s2 + 1\<rparr>"
      define c where "c = makeCell col (Some (blockCounter s2 + 1))"
      have eq: "genLoop v row spawned x s = genLoop v (writeSegment row x len c) (spawned + len) (x + len) s3"
        using genLoop.simps[of v row spawned x s] True maxLen r1 r2 fg
        by (simp add: Let_def maxLen_def[symmetric] col_def[symmetric] len_def[symmetric]
                      nextBlockId_def s3_def c_def)
      from less.hyps[OF smaller] less.prems eq have "genFrame s3 s'" by simp
      moreover have "genFrame s2 s3" by (simp add: s3_def genFrame_def)
      ultimately show ?thesis using f2 genFrame_trans by blast
    qed
  qed
qed

lemma regenerateNextRow_spec:
  "\<exists>row. nextRow (regenerateNextRow v s) = Some row \<and> length row = 10
         \<and> grid (regenerateNextRow v s) = grid s"
proof -
  obtain row s' where g: "generateNextRow v s = (row, s')" by force
  from genLoop_inv[OF rowInv_initial, of v s row s'] g
  obtain sp x' where "rowInv v (blockCounter s) row sp x' s'"
    by (auto simp: generateNextRow_def)
  then have "length row = 10" by (simp add: rowInv_def)
  moreover from genLoop_frame[of v _ 0 0 s row s'] g have "grid s' = grid s"
    by (simp add: generateNextRow_def genFrame_def)
  ultimately show ?thesis using g by (simp add: regenerateNextRow_def)
qed

lemma probe_answer:
  assumes "length (grid s) = 200" "nextRow s = Some r" "length r = 10"
  shows "rowWouldClearLines v (nextRow s) s = Some (wouldClear v s, s)"
  using rowWouldClearLines_trial[OF assms(1,3), of v] assms(2)
  by (auto simp: wouldClear_def)

lemma rerollLoop_from:
  "length (grid s) = 200 \<Longrightarrow> nextRow s = Some r \<Longrightarrow> length r = 10 \<Longrightarrow> k0 \<le> 20 \<Longrightarrow>
   \<exists>n. k0 + n \<le> 20
     \<and> rerollLoop v s k0 = Some (k0 + n, ((regenerateNextRow v) ^^ n) s)
     \<and> (\<forall>k<n. wouldClear v (((regenerateNextRow v) ^^ k) s))
     \<and> (k0 + n < 20 \<longrightarrow> \<not> wouldClear v (((regenerateNextRow v) ^^ n) s))"
proof (induction "20 - k0" arbitrary: s r k0)
  case 0
  then have k: "k0 = 20" by simp
  have "rerollLoop v s k0 = Some (k0, s)"
    by (subst rerollLoop.simps) (simp add: probe_answer[OF 0(2,3,4)] k)
  then show ?case by (intro exI[of _ 0]) (simp add: k)
next
  case (Suc m)
  then have lt: "k0 < 20" by simp
  note pa = probe_answer[OF Suc.prems(1,2,3), of v]
  show ?case
  proof (cases "wouldClear v s")
    case False
    have "rerollLoop v s k0 = Some (k0, s)"
      by (subst rerollLoop.simps) (simp add: pa False)
    with False lt show ?thesis by (intro exI[of _ 0]) simp
  next
    case True
    let ?s1 = "regenerateNextRow v s"
    from regenerateNextRow_spec[of v s] obtain r1 where r1: "nextRow ?s1 = Some r1" "length r1 = 10"
      "grid ?s1 = grid s" by blast
    have m: "m = 20 - (k0 + 1)" using Suc.hyps(2) by simp
    from Suc.hyps(1)[OF m _ r1(1,2)] r1(3) Suc.prems(1) lt
    obtain n where n: "k0 + 1 + n \<le> 20"
      "rerollLoop v ?s1 (k0 + 1) = Some (k0 + 1 + n, ((regenerateNextRow v) ^^ n) ?s1)"
      "\<forall>k<n. wouldClear v (((regenerateNextRow v) ^^ k) ?s1)"
      "k0 + 1 + n < 20 \<longrightarrow> \<not> wouldClear v (((regenerateNextRow v) ^^ n) ?s1)"
      by auto
    have step: "rerollLoop v s k0 = rerollLoop v ?s1 (k0 + 1)"
      by (subst rerollLoop.simps) (simp add: pa True lt)
    have all: "\<forall>k<Suc n. wouldClear v (((regenerateNextRow v) ^^ k) s)"
    proof (intro allI impI)
      fix k assume "k < Suc n"
      show "wouldClear v (((regenerateNextRow v) ^^ k) s)"
      proof (cases k)
        case 0
        with True show ?thesis by simp
      next
        case (Suc j)
        with \<open>k < Suc n\<close> n(3) show ?thesis by (simp add: funpow_swap1)
      qed
    qed
    show ?thesis
    proof (intro exI[of _ "Suc n"] conjI)
      show "k0 + Suc n \<le> 20" using n(1) by simp
      show "rerollLoop v s k0 = Some (k0 + Suc n, ((regenerateNextRow v) ^^ Suc n) s)"
        using step n(2) by (simp add: funpow_swap1)
      show "\<forall>k<Suc n. wouldClear v (((regenerateNextRow v) ^^ k) s)" by (rule all)
      show "k0 + Suc n < 20 \<longrightarrow> \<not> wouldClear v (((regenerateNextRow v) ^^ Suc n) s)"
        using n(4) by (simp add: funpow_swap1)
    qed
  qed
qed

text \<open>
  Claim C5, as the code has it. With a held row, the retry loop of \<open>spawnBlocks\<close> returns
  after some number \<open>a \<le> 20\<close> of regenerations. The rows probed before the \<open>a\<close>-th
  regeneration (the held row and the regenerated rows 1 to \<open>a - 1\<close>) would all clear a line;
  when \<open>a < 20\<close>, the row held then would not, and it is the row inserted. When \<open>a = 20\<close> the
  row inserted is the empty row, whatever the probe says about the twentieth regenerated
  row: that row is generated and probed, and never inserted.
\<close>

theorem spawnBlocks_candidate_choice:
  assumes "length (grid s) = 200" "nextRow s = Some r" "length r = 10"
  shows "\<exists>a. a \<le> 20
           \<and> rerollLoop v s 0 = Some (a, ((regenerateNextRow v) ^^ a) s)
           \<and> (\<forall>k<a. wouldClear v (((regenerateNextRow v) ^^ k) s))
           \<and> (a < 20 \<longrightarrow> \<not> wouldClear v (((regenerateNextRow v) ^^ a) s))
           \<and> nextRow (afterReroll v a (((regenerateNextRow v) ^^ a) s))
               = (if a = 20 then Some (emptyRow v) else nextRow (((regenerateNextRow v) ^^ a) s))
           \<and> spawnBlocks v animateSettle s
               = (case settleBoardWith (\<lambda>_. None) v animateSettle None
                         (insertBottomRow
                            (the (nextRow (afterReroll v a (((regenerateNextRow v) ^^ a) s))))
                            (moveBlocksUp v (afterReroll v a (((regenerateNextRow v) ^^ a) s)))) of
                    None \<Rightarrow> None
                  | Some (cleared, s4) \<Rightarrow> Some (regenerateNextRow v s4))"
proof -
  from rerollLoop_from[OF assms, of 0 v]
  obtain a where a: "a \<le> 20"
    "rerollLoop v s 0 = Some (a, ((regenerateNextRow v) ^^ a) s)"
    "\<forall>k<a. wouldClear v (((regenerateNextRow v) ^^ k) s)"
    "a < 20 \<longrightarrow> \<not> wouldClear v (((regenerateNextRow v) ^^ a) s)"
    by auto
  have "spawnBlocks v animateSettle s
               = (case settleBoardWith (\<lambda>_. None) v animateSettle None
                         (insertBottomRow
                            (the (nextRow (afterReroll v a (((regenerateNextRow v) ^^ a) s))))
                            (moveBlocksUp v (afterReroll v a (((regenerateNextRow v) ^^ a) s)))) of
                    None \<Rightarrow> None
                  | Some (cleared, s4) \<Rightarrow> Some (regenerateNextRow v s4))"
    using a(2) assms(2)
    by (simp add: spawnBlocks_def afterReroll_def emptyRow_def Let_def)
  moreover have "nextRow (afterReroll v a (((regenerateNextRow v) ^^ a) s))
               = (if a = 20 then Some (emptyRow v) else nextRow (((regenerateNextRow v) ^^ a) s))"
    using a(1) by (simp add: afterReroll_def)
  ultimately show ?thesis using a by blast
qed

theorem spawnBlocks_candidate_choice_witness:
  "length (grid (heldRowState IndexJs)) = 200
   \<and> nextRow (heldRowState IndexJs) = Some exampleRow \<and> length exampleRow = 10
   \<and> (\<exists>a. a \<le> 20
         \<and> rerollLoop IndexJs (heldRowState IndexJs) 0
             = Some (a, ((regenerateNextRow IndexJs) ^^ a) (heldRowState IndexJs))
         \<and> nextRow (afterReroll IndexJs a (((regenerateNextRow IndexJs) ^^ a) (heldRowState IndexJs)))
             = (if a = 20 then Some (emptyRow IndexJs)
                else nextRow (((regenerateNextRow IndexJs) ^^ a) (heldRowState IndexJs))))"
proof -
  have len: "length (grid (heldRowState IndexJs)) = 200"
    by (simp add: heldRowState_def initialState_def)
  have held: "nextRow (heldRowState IndexJs) = Some exampleRow"
    by (simp add: heldRowState_def)
  have row: "length exampleRow = 10"
    by (simp add: exampleRow_def)
  from spawnBlocks_candidate_choice[OF len held row, of IndexJs] len held row
  show ?thesis by blast
qed

text \<open>When the counter has reached the bound, the row held at that moment is not looked at
  any more: the loop ends with 20 attempts, which makes \<open>spawnBlocks\<close> insert the empty row.\<close>

lemma rerollLoop_at_bound:
  assumes "length (grid s) = 200" "nextRow s = Some r" "length r = 10"
  shows "rerollLoop v s 20 = Some (20, s)"
  by (subst rerollLoop.simps) (simp add: probe_answer[OF assms])


section \<open>Blocks of one row\<close>

text \<open>\<open>cellsOk\<close>: a board cell has no block id exactly when it is empty. \<open>oneRow\<close>: the cells
  of one block id lie in one row and fill an interval of columns.\<close>

definition cellsOk :: "variant \<Rightarrow> cell list \<Rightarrow> bool" where
  "cellsOk v g = (\<forall>p. onBoard p \<longrightarrow> (blockId (cellAt g p) = None) = isEmptyCell v (cellAt g p))"

definition oneRow :: "cell list \<Rightarrow> bool" where
  "oneRow g =
     (\<forall>b p q. p \<in> idCells g b \<and> q \<in> idCells g b \<longrightarrow>
        snd p = snd q \<and> (\<forall>x. fst p \<le> x \<and> x \<le> fst q \<longrightarrow> (x, snd p) \<in> idCells g b))"

lemma oneRow_row: "oneRow g \<Longrightarrow> p \<in> idCells g b \<Longrightarrow> q \<in> idCells g b \<Longrightarrow> snd p = snd q"
  unfolding oneRow_def by blast

lemma oneRow_between:
  "oneRow g \<Longrightarrow> p \<in> idCells g b \<Longrightarrow> q \<in> idCells g b \<Longrightarrow> fst p \<le> x \<Longrightarrow> x \<le> fst q \<Longrightarrow>
   (x, snd p) \<in> idCells g b"
  unfolding oneRow_def by blast

lemma collect_reaches:
  assumes one: "oneRow g" and start: "(x, y) \<in> idCells g b"
  shows "(x', y) \<in> idCells g b \<Longrightarrow> nat \<bar>x' - x\<bar> = n \<Longrightarrow>
         (x', y) \<in> set (collectBlockCells g x y (Some b))"
proof (induction n arbitrary: x')
  case 0
  then have "x' = x" by simp
  moreover from start have "inb x y" "blockId (gridAt g x y) = Some b"
    by (auto simp: idCells_def)
  ultimately show ?case using collectBlockCells_start by simp
next
  case (Suc n)
  then have ne: "x' \<noteq> x" by auto
  define x'' where "x'' = (if x < x' then x' - 1 else x' + 1)"
  have d: "nat \<bar>x'' - x\<bar> = n" using Suc.prems(2) ne by (auto simp: x''_def)
  have mem: "(x'', y) \<in> idCells g b"
  proof (cases "x < x'")
    case True
    from oneRow_between[OF one start Suc.prems(1), of x''] True show ?thesis
      by (simp add: x''_def)
  next
    case False
    from oneRow_between[OF one Suc.prems(1) start, of x''] False ne show ?thesis
      by (simp add: x''_def)
  qed
  from Suc.IH[OF mem d] have in'': "(x'', y) \<in> set (collectBlockCells g x y (Some b))" .
  have nb: "(x', y) \<in> set (neighbors (fst (x'', y)) (snd (x'', y)))"
    by (auto simp: neighbors_def x''_def)
  from Suc.prems(1) have ok: "onBoard (x', y)" "blockId (cellAt g (x', y)) = Some b"
    by (auto simp: idCells_def)
  from collectBlockCells_closed[OF in'' nb ok] show ?case .
qed

lemma collect_all:
  assumes "oneRow g" "inb x y" "blockId (gridAt g x y) = Some b"
  shows "set (collectBlockCells g x y (Some b)) = idCells g b"
proof
  show "set (collectBlockCells g x y (Some b)) \<subseteq> idCells g b"
    using collectBlockCells_sound[of _ g x y "Some b"] by (auto simp: idCells_def)
  have start: "(x, y) \<in> idCells g b" using assms(2,3) by (simp add: idCells_def)
  show "idCells g b \<subseteq> set (collectBlockCells g x y (Some b))"
  proof
    fix q assume q: "q \<in> idCells g b"
    obtain x' y' where xy: "q = (x', y')" by (cases q)
    from oneRow_row[OF assms(1) q start] xy have "y' = y" by simp
    with q xy collect_reaches[OF assms(1) start, of x' "nat \<bar>x' - x\<bar>"]
    show "q \<in> set (collectBlockCells g x y (Some b))" by simp
  qed
qed

lemma applyMove_blockId:
  assumes "length g = 200" "validMove v g m" "onBoard p"
  shows "blockId (cellAt (applyMove v g m) p)
           = (if p \<in> moveTargets m then mv_blockId m
              else if p \<in> set (mv_cells m) then None else blockId (cellAt g p))"
  by (simp add: applyMove_cellAt[OF assms] makeCell_def)

lemma applyMove_isEmpty:
  assumes "length g = 200" "validMove v g m" "onBoard p"
  shows "isEmptyCell v (cellAt (applyMove v g m) p)
           = (if p \<in> moveTargets m then False
              else if p \<in> set (mv_cells m) then True else isEmptyCell v (cellAt g p))"
proof -
  have "mv_color m \<noteq> COLOR_BACKGROUND v" using assms(2) by (simp add: validMove_def)
  then show ?thesis
    by (simp add: applyMove_cellAt[OF assms] makeCell_def isEmptyCell_def)
qed

lemma applyMove_idCells:
  assumes len: "length g = 200" and ok: "cellsOk v g" and vm: "validMove v g m"
    and all: "set (mv_cells m) = idCells g b" and bid: "mv_blockId m = Some b"
  shows "idCells (applyMove v g m) b' = (if b' = b then moveTargets m else idCells g b')"
proof -
  have tgt_board: "\<And>p. p \<in> moveTargets m \<Longrightarrow> onBoard p"
    using validMove_targets(1)[OF vm] .
  have tgt_empty: "\<And>p. p \<in> moveTargets m \<Longrightarrow> blockId (cellAt g p) = None"
  proof -
    fix p assume p: "p \<in> moveTargets m"
    from validMove_targets[OF vm p] ok show "blockId (cellAt g p) = None"
      unfolding cellsOk_def by blast
  qed
  have mem: "\<And>p. p \<in> idCells (applyMove v g m) b' \<longleftrightarrow>
               p \<in> (if b' = b then moveTargets m else idCells g b')"
  proof -
    fix p
    show "p \<in> idCells (applyMove v g m) b' \<longleftrightarrow> p \<in> (if b' = b then moveTargets m else idCells g b')"
    proof (cases "p \<in> moveTargets m")
      case True
      then have "blockId (cellAt (applyMove v g m) p) = Some b"
        using applyMove_blockId[OF len vm tgt_board[OF True]] bid by simp
      moreover have "p \<notin> idCells g b'" using tgt_empty[OF True] by (simp add: idCells_def)
      ultimately show ?thesis using True tgt_board[OF True] by (simp add: idCells_def)
    next
      case nt: False
      show ?thesis
      proof (cases "onBoard p")
        case False
        then show ?thesis using nt by (simp add: idCells_def)
      next
        case ob: True
        show ?thesis
        proof (cases "p \<in> set (mv_cells m)")
          case True
          then have "blockId (cellAt (applyMove v g m) p) = None"
            using applyMove_blockId[OF len vm ob] nt by simp
          moreover have "blockId (cellAt g p) = Some b" using True all by (simp add: idCells_def)
          ultimately show ?thesis using nt ob by (auto simp: idCells_def)
        next
          case False
          then have "blockId (cellAt (applyMove v g m) p) = blockId (cellAt g p)"
            using applyMove_blockId[OF len vm ob] nt by simp
          moreover have "blockId (cellAt g p) \<noteq> Some b" using False all ob by (simp add: idCells_def)
          ultimately show ?thesis using nt ob by (auto simp: idCells_def)
        qed
      qed
    qed
  qed
  show ?thesis by (rule set_eqI) (rule mem)
qed

lemma applyMove_cellsOk:
  assumes len: "length g = 200" and ok: "cellsOk v g" and vm: "validMove v g m"
  shows "cellsOk v (applyMove v g m)"
  unfolding cellsOk_def
proof (intro allI impI)
  fix p assume ob: "onBoard p"
  have id: "mv_blockId m \<noteq> None" using vm by (simp add: validMove_def)
  from ok ob have old: "(blockId (cellAt g p) = None) = isEmptyCell v (cellAt g p)"
    unfolding cellsOk_def by blast
  show "(blockId (cellAt (applyMove v g m) p) = None) = isEmptyCell v (cellAt (applyMove v g m) p)"
    unfolding applyMove_blockId[OF len vm ob] applyMove_isEmpty[OF len vm ob]
    using id old by simp
qed

lemma applyMove_oneRow:
  assumes len: "length g = 200" and ok: "cellsOk v g" and one: "oneRow g"
    and vm: "validMove v g m"
    and all: "set (mv_cells m) = idCells g b" and bid: "mv_blockId m = Some b"
  shows "oneRow (applyMove v g m)"
  unfolding oneRow_def
proof (intro allI impI)
  fix b' p q
  assume pq: "p \<in> idCells (applyMove v g m) b' \<and> q \<in> idCells (applyMove v g m) b'"
  note ids = applyMove_idCells[OF len ok vm all bid, of b']
  show "snd p = snd q \<and> (\<forall>x. fst p \<le> x \<and> x \<le> fst q \<longrightarrow> (x, snd p) \<in> idCells (applyMove v g m) b')"
  proof (cases "b' = b")
    case False
    then have same: "idCells (applyMove v g m) b' = idCells g b'" using ids by simp
    from pq have p: "p \<in> idCells g b'" and q: "q \<in> idCells g b'" unfolding same by simp_all
    have "snd p = snd q" by (rule oneRow_row[OF one p q])
    moreover have "\<forall>x. fst p \<le> x \<and> x \<le> fst q \<longrightarrow> (x, snd p) \<in> idCells g b'"
      using oneRow_between[OF one p q] by blast
    ultimately show ?thesis unfolding same by blast
  next
    case True
    then have same: "idCells (applyMove v g m) b' = moveTargets m" using ids by simp
    from pq have "p \<in> moveTargets m" "q \<in> moveTargets m" unfolding same by simp_all
    then obtain p0 q0 where p0: "p0 \<in> set (mv_cells m)" "p = (fst p0, snd p0 + dropDistance m)"
      and q0: "q0 \<in> set (mv_cells m)" "q = (fst q0, snd q0 + dropDistance m)"
      unfolding moveTargets_def by blast
    have p0': "p0 \<in> idCells g b" and q0': "q0 \<in> idCells g b" using p0(1) q0(1) all by simp_all
    have row: "snd p0 = snd q0" by (rule oneRow_row[OF one p0' q0'])
    have "\<forall>x. fst p \<le> x \<and> x \<le> fst q \<longrightarrow> (x, snd p) \<in> moveTargets m"
    proof (intro allI impI)
      fix x assume x: "fst p \<le> x \<and> x \<le> fst q"
      have "fst p0 \<le> x" "x \<le> fst q0" using x p0(2) q0(2) by simp_all
      from oneRow_between[OF one p0' q0' this] have "(x, snd p0) \<in> set (mv_cells m)"
        using all by simp
      then have "(fst (x, snd p0), snd (x, snd p0) + dropDistance m) \<in> moveTargets m"
        unfolding moveTargets_def by (rule imageI)
      then show "(x, snd p) \<in> moveTargets m" using p0(2) by simp
    qed
    moreover have "snd p = snd q" using row p0(2) q0(2) by simp
    ultimately show ?thesis unfolding same by blast
  qed
qed

section \<open>Gravity: safe moves and the fixed point\<close>

definition gridOk :: "variant \<Rightarrow> cell list \<Rightarrow> bool" where
  "gridOk v g = (length g = 200 \<and> cellsOk v g \<and> oneRow g)"

text \<open>A recorded move is safe on the grid it was made on when every cell it clears and every
  cell it writes is on the board, and every cell it writes was empty. The moves of a log
  are checked in order, each on the grid the earlier ones leave.\<close>

definition moveSafe :: "variant \<Rightarrow> cell list \<Rightarrow> move \<Rightarrow> bool" where
  "moveSafe v g m =
     list_all (\<lambda>(x, y). inb x y \<and> inb x (y + dropDistance m)
                        \<and> isEmptyCell v (gridAt g x (y + dropDistance m))) (mv_cells m)"

fun movesSafe :: "variant \<Rightarrow> cell list \<Rightarrow> move list \<Rightarrow> bool" where
  "movesSafe v g [] = True"
| "movesSafe v g (m # ms) = (moveSafe v g m \<and> movesSafe v (applyMove v g m) ms)"

definition replayMoves :: "variant \<Rightarrow> cell list \<Rightarrow> move list \<Rightarrow> cell list" where
  "replayMoves v g ms = foldl (applyMove v) g ms"

text \<open>The block found at \<open>(x, y)\<close> could move down one row if its own cells were vacated.\<close>

definition blockCanDrop :: "variant \<Rightarrow> cell list \<Rightarrow> int \<Rightarrow> int \<Rightarrow> bool" where
  "blockCanDrop v g x y =
     (case blockId (gridAt g x y) of
        None \<Rightarrow> False
      | Some b \<Rightarrow>
          landsFree v (clearCells v g (collectBlockCells g x y (Some b)))
            (collectBlockCells g x y (Some b)) 1)"

lemma sweep_rule:
  assumes "sweep v cm ps (g, P, mvs, moved) = Some (g', P', mvs', moved')" and "I g mvs"
    and step: "\<And>p g P mvs moved g1 P1 mvs1 moved1.
                 p \<in> set ps \<Longrightarrow> I g mvs \<Longrightarrow>
                 gravityCell v cm p (g, P, mvs, moved) = Some (g1, P1, mvs1, moved1) \<Longrightarrow> I g1 mvs1"
  shows "I g' mvs'"
  using assms
proof (induction ps arbitrary: g P mvs moved)
  case Nil
  then show ?case by simp
next
  case (Cons p ps)
  from Cons.prems(1) obtain g1 P1 mvs1 moved1 where
    1: "gravityCell v cm p (g, P, mvs, moved) = Some (g1, P1, mvs1, moved1)"
    and 2: "sweep v cm ps (g1, P1, mvs1, moved1) = Some (g', P', mvs', moved')"
    by (auto split: option.splits)
  have I1: "I g1 mvs1" using Cons.prems(3)[OF _ Cons.prems(2) 1] by simp
  show ?case
  proof (rule Cons.IH[OF 2 I1])
    fix q g P mvs moved g1 P1 mvs1 moved1
    assume "q \<in> set ps" "I g mvs"
      "gravityCell v cm q (g, P, mvs, moved) = Some (g1, P1, mvs1, moved1)"
    then show "I g1 mvs1" using Cons.prems(3)[of q g mvs P moved g1 P1 mvs1 moved1] by simp
  qed
qed

lemma gravityLoop_rule:
  assumes step: "\<And>g mvs g1 P1 mvs1 moved1.
                 length g = 200 \<Longrightarrow> I g mvs \<Longrightarrow>
                 sweep v cm scanOrder (g, {}, mvs, False) = Some (g1, P1, mvs1, moved1)
                 \<Longrightarrow> I g1 mvs1"
  shows "length g = 200 \<Longrightarrow> I g mvs \<Longrightarrow> gravityLoop v cm g mvs ma = Some (g', mvs', ma')
         \<Longrightarrow> I g' mvs'"
proof (induction "4000 - potential v g" arbitrary: g mvs ma rule: less_induct)
  case less
  from sweep_progress[OF less.prems(1), of v cm scanOrder "{}" mvs False]
  obtain g1 P1 mvs1 moved1 where 1:
    "sweep v cm scanOrder (g, {}, mvs, False) = Some (g1, P1, mvs1, moved1)"
    "length g1 = 200" "moved1 = (False \<or> potential v g < potential v g1)" by blast
  have I1: "I g1 mvs1" by (rule step[OF less.prems(1,2) 1(1)])
  show ?case
  proof (cases moved1)
    case False
    have "gravityLoop v cm g mvs ma = Some (g1, mvs1, ma)"
      by (subst gravityLoop.simps) (simp add: 1(1) False)
    with less.prems(3) I1 show ?thesis by simp
  next
    case True
    with 1(3) have lt: "potential v g < potential v g1" by simp
    have m: "4000 - potential v g1 < 4000 - potential v g"
      using lt potential_bound[of v g1] by linarith
    have "gravityLoop v cm g mvs ma = gravityLoop v cm g1 mvs1 True"
      by (subst gravityLoop.simps) (simp add: 1(1) True)
    with less.prems(3) have "gravityLoop v cm g1 mvs1 True = Some (g', mvs', ma')" by simp
    from less.hyps[OF m 1(2) I1 this] show ?thesis .
  qed
qed

lemma gravityCell_gridOk:
  assumes ok: "gridOk v g" and p: "onBoard p"
    and gc: "gravityCell v cm p (g, P, mvs, moved) = Some (g', P', mvs', moved')"
  shows "gridOk v g'"
proof -
  obtain x y where xy: "p = (x, y)" by (cases p)
  from ok have len: "length g = 200" and cok: "cellsOk v g" and one: "oneRow g"
    by (simp_all add: gridOk_def)
  from gravityCell_cases[of v cm x y g P mvs moved] gc xy
  consider "g' = g"
    | b d where "blockId (gridAt g x y) = Some b" "validMove v g (blockMove g x y b d)"
        "g' = applyMove v g (blockMove g x y b d)"
    by auto
  then show ?thesis
  proof cases
    case 1
    with ok show ?thesis by simp
  next
    case 2
    have inb: "inb x y" using p xy by simp
    have all: "set (mv_cells (blockMove g x y b d)) = idCells g b"
      using collect_all[OF one inb 2(1)] by (simp add: blockMove_def)
    have bid: "mv_blockId (blockMove g x y b d) = Some b" by (simp add: blockMove_def)
    show ?thesis
      unfolding gridOk_def 2(3)
      using applyMove_cellsOk[OF len cok 2(2)] applyMove_oneRow[OF len cok one 2(2) all bid] len
      by simp
  qed
qed

text \<open>The block \<open>b\<close> rests: the cell below one of its cells is the floor or is not empty.\<close>

definition restsOn :: "variant \<Rightarrow> cell list \<Rightarrow> nat \<Rightarrow> bool" where
  "restsOn v g b =
     (\<exists>p \<in> idCells g b. \<not> (snd p + 1 < HEIGHT \<and> isEmptyCell v (cellAt g (fst p, snd p + 1))))"

lemma sweep_gridOk:
  assumes "sweep v cm ps (g, P, mvs, moved) = Some (g', P', mvs', moved')" "gridOk v g"
    "set ps \<subseteq> board"
  shows "gridOk v g'"
proof (rule sweep_rule[OF assms(1), where I = "\<lambda>g mvs. gridOk v g"])
  show "gridOk v g" by (rule assms(2))
next
  fix p g P mvs moved g1 P1 mvs1 moved1
  assume "p \<in> set ps" "gridOk v g"
    "gravityCell v cm p (g, P, mvs, moved) = Some (g1, P1, mvs1, moved1)"
  then show "gridOk v g1"
    using gravityCell_gridOk[of v g p cm P mvs moved g1 P1 mvs1 moved1] assms(3)
    by (auto simp: board_iff)
qed

lemma gravityLoop_gridOk:
  assumes "gravityLoop v cm g mvs ma = Some (g', mvs', ma')" "gridOk v g"
  shows "gridOk v g'"
proof (rule gravityLoop_rule[where I = "\<lambda>g mvs. gridOk v g", OF _ _ assms(2) assms(1)])
  show "length g = 200" using assms(2) by (simp add: gridOk_def)
next
  fix g mvs g1 P1 mvs1 moved1
  assume "gridOk v g" "sweep v cm scanOrder (g, {}, mvs, False) = Some (g1, P1, mvs1, moved1)"
  then show "gridOk v g1" using sweep_gridOk[of v cm scanOrder g "{}" mvs False g1 P1 mvs1 moved1]
    by (simp add: set_scanOrder)
qed

lemma replayMoves_snoc: "replayMoves v g (ms @ [m]) = applyMove v (replayMoves v g ms) m"
  by (simp add: replayMoves_def)

lemma movesSafe_snoc:
  "movesSafe v g (ms @ [m]) = (movesSafe v g ms \<and> moveSafe v (replayMoves v g ms) m)"
  by (induction ms arbitrary: g) (simp_all add: replayMoves_def)

lemma validMove_moveSafe:
  assumes "validMove v g m"
  shows "moveSafe v g m"
  unfolding moveSafe_def list_all_iff
proof
  fix p assume p: "p \<in> set (mv_cells m)"
  obtain x y where xy: "p = (x, y)" by (cases p)
  have t: "(fst p, snd p + dropDistance m) \<in> moveTargets m"
    unfolding moveTargets_def using p by (rule imageI)
  from assms p have "onBoard p" unfolding validMove_def by blast
  then have "inb x y" using xy by simp
  with validMove_targets[OF assms t] xy
  show "case p of (x, y) \<Rightarrow> inb x y \<and> inb x (y + dropDistance m)
                        \<and> isEmptyCell v (gridAt g x (y + dropDistance m))"
    by simp
qed

text \<open>The log kept by a run with \<open>collectMoves\<close>: it grows by safe moves that lead from the
  grid at the start to the current grid.\<close>

definition logInv :: "variant \<Rightarrow> cell list \<Rightarrow> move list \<Rightarrow> cell list \<Rightarrow> move list \<Rightarrow> bool" where
  "logInv v g0 mvs0 g mvs =
     (\<exists>new. mvs = mvs0 @ new \<and> movesSafe v g0 new \<and> replayMoves v g0 new = g)"

lemma gravityCell_logInv:
  assumes "logInv v g0 mvs0 g mvs"
    "gravityCell v True p (g, P, mvs, moved) = Some (g1, P1, mvs1, moved1)"
  shows "logInv v g0 mvs0 g1 mvs1"
proof -
  obtain x y where xy: "p = (x, y)" by (cases p)
  from assms(1) obtain new where new: "mvs = mvs0 @ new" "movesSafe v g0 new"
    "replayMoves v g0 new = g" by (auto simp: logInv_def)
  show ?thesis
  proof (rule gravityCell_three[of v True x y g P mvs moved])
    assume "gravityCell v True (x, y) (g, P, mvs, moved) = Some (g, P, mvs, moved)"
    with assms xy show ?thesis by simp
  next
    fix b assume "gravityCell v True (x, y) (g, P, mvs, moved) = Some (g, insert b P, mvs, moved)"
    with assms xy show ?thesis by simp
  next
    fix b m assume vm: "validMove v g m"
      and eq: "gravityCell v True (x, y) (g, P, mvs, moved)
         = Some (applyMove v g m, insert b P, (if True then mvs @ [m] else mvs), True)"
    from eq assms(2) xy have g1: "g1 = applyMove v g m" "mvs1 = mvs @ [m]" by simp_all
    have "mvs1 = mvs0 @ (new @ [m])" using g1 new(1) by simp
    moreover have "movesSafe v g0 (new @ [m])"
      using new(2,3) validMove_moveSafe[OF vm] by (simp add: movesSafe_snoc)
    moreover have "replayMoves v g0 (new @ [m]) = g1"
      using new(3) g1 by (simp add: replayMoves_snoc)
    ultimately show ?thesis unfolding logInv_def by blast
  qed
qed

lemma gravityLoop_logInv:
  assumes "gravityLoop v True g [] ma = Some (g', mvs', ma')" "length g = 200"
  shows "movesSafe v g mvs' \<and> replayMoves v g mvs' = g'"
proof -
  have "logInv v g [] g' mvs'"
  proof (rule gravityLoop_rule[where I = "logInv v g []", OF _ assms(2) _ assms(1)])
    show "logInv v g [] g []" by (simp add: logInv_def replayMoves_def)
  next
    fix ga mvs g1 P1 mvs1 moved1
    assume I: "logInv v g [] ga mvs"
      and sw: "sweep v True scanOrder (ga, {}, mvs, False) = Some (g1, P1, mvs1, moved1)"
    show "logInv v g [] g1 mvs1"
    proof (rule sweep_rule[OF sw, where I = "logInv v g []"])
      show "logInv v g [] ga mvs" by (rule I)
    next
      fix p gb P mvsb moved g2 P2 mvs2 moved2
      assume "logInv v g [] gb mvsb"
        "gravityCell v True p (gb, P, mvsb, moved) = Some (g2, P2, mvs2, moved2)"
      then show "logInv v g [] g2 mvs2" by (rule gravityCell_logInv)
    qed
  qed
  then show ?thesis by (simp add: logInv_def)
qed

lemma gravityCell_noLog:
  assumes "gravityCell v cm p (g, P, mvs, moved) = Some (g1, P1, mvs1, moved1)"
  shows "gravityCell v False p (g, P, ms0, moved) = Some (g1, P1, ms0, moved1)"
proof -
  obtain x y where xy: "p = (x, y)" by (cases p)
  show ?thesis
    using assms unfolding xy gravityCell_def
    by (auto simp: Let_def split: if_splits option.splits bind_splits)
qed

lemma sweep_noLog:
  "sweep v cm ps (g, P, mvs, moved) = Some (g1, P1, mvs1, moved1) \<Longrightarrow>
   sweep v False ps (g, P, ms0, moved) = Some (g1, P1, ms0, moved1)"
proof (induction ps arbitrary: g P mvs moved)
  case Nil
  then show ?case by simp
next
  case (Cons p ps)
  from Cons.prems obtain g2 P2 mvs2 moved2 where
    1: "gravityCell v cm p (g, P, mvs, moved) = Some (g2, P2, mvs2, moved2)"
    and 2: "sweep v cm ps (g2, P2, mvs2, moved2) = Some (g1, P1, mvs1, moved1)"
    by (auto split: option.splits)
  from gravityCell_noLog[OF 1, of ms0] Cons.IH[OF 2] show ?case by simp
qed

lemma gravityLoop_noLog:
  "length g = 200 \<Longrightarrow> gravityLoop v cm g mvs ma = Some (g', mvs', ma') \<Longrightarrow>
   gravityLoop v False g ms0 ma = Some (g', ms0, ma')"
proof (induction "4000 - potential v g" arbitrary: g mvs ma rule: less_induct)
  case less
  from sweep_progress[OF less.prems(1), of v cm scanOrder "{}" mvs False]
  obtain g1 P1 mvs1 moved1 where 1:
    "sweep v cm scanOrder (g, {}, mvs, False) = Some (g1, P1, mvs1, moved1)"
    "length g1 = 200" "moved1 = (False \<or> potential v g < potential v g1)" by blast
  note 2 = sweep_noLog[OF 1(1), of ms0]
  show ?case
  proof (cases moved1)
    case False
    have "gravityLoop v cm g mvs ma = Some (g1, mvs1, ma)"
      by (subst gravityLoop.simps) (simp add: 1(1) False)
    with less.prems(2) have r: "g' = g1" "ma' = ma" by simp_all
    show ?thesis
      by (subst gravityLoop.simps) (simp add: 2 False r)
  next
    case True
    with 1(3) have lt: "potential v g < potential v g1" by simp
    have m: "4000 - potential v g1 < 4000 - potential v g"
      using lt potential_bound[of v g1] by linarith
    have "gravityLoop v cm g mvs ma = gravityLoop v cm g1 mvs1 True"
      by (subst gravityLoop.simps) (simp add: 1(1) True)
    with less.prems(2) have "gravityLoop v cm g1 mvs1 True = Some (g', mvs', ma')" by simp
    from less.hyps[OF m 1(2) this]
    have "gravityLoop v False g1 ms0 True = Some (g', ms0, ma')" .
    then show ?thesis
      by (subst gravityLoop.simps) (simp add: 2 True)
  qed
qed

lemma landsFree_iff:
  "landsFree v g cells d
     = (\<forall>p \<in> set cells. snd p + d < HEIGHT \<and> isEmptyCell v (gridAt g (fst p) (snd p + d)))"
  unfolding landsFree_def list_all_iff by (auto simp: case_prod_beta)

lemma gravityCell_stable:
  assumes ok: "gridOk v g" and inb: "inb x y"
    and step: "gravityCell v cm (x, y) (g, P, mvs, False) = Some (g', P', mvs', False)"
  shows "g' = g \<and> mvs' = mvs \<and> P \<subseteq> P' \<and> (\<forall>b \<in> P' - P. restsOn v g b)
         \<and> (\<not> isEmptyCell v (gridAt g x y) \<longrightarrow> (\<exists>b. blockId (gridAt g x y) = Some b \<and> b \<in> P'))"
proof -
  from ok have len: "length g = 200" and cok: "cellsOk v g" and one: "oneRow g"
    by (simp_all add: gridOk_def)
  have full: "\<not> isEmptyCell v (gridAt g x y) \<Longrightarrow> blockId (gridAt g x y) \<noteq> None"
    using cok inb unfolding cellsOk_def by (metis cellAt_simp onBoard_simp)
  from gravityCell_cases[of v cm x y g P mvs False] step
  consider
    (skip) "isEmptyCell v (gridAt g x y) \<or> blockId (gridAt g x y) = None
        \<or> (\<exists>b. blockId (gridAt g x y) = Some b \<and> (b \<in> P \<or> collectBlockCells g x y (Some b) = []))"
      "(g', P', mvs', False) = (g, P, mvs, False)"
  | (rest) b where "\<not> isEmptyCell v (gridAt g x y)" "blockId (gridAt g x y) = Some b" "b \<notin> P"
      "collectBlockCells g x y (Some b) \<noteq> []"
      "dropLoop v g (collectBlockCells g x y (Some b)) 0 = Some 0"
      "(g', P', mvs', False) = (g, insert b P, mvs, False)"
    by auto
  then show ?thesis
  proof cases
    case skip
    have "\<exists>b. blockId (gridAt g x y) = Some b \<and> b \<in> P" if ne: "\<not> isEmptyCell v (gridAt g x y)"
    proof -
      from full[OF ne] skip(1) ne obtain b where b: "blockId (gridAt g x y) = Some b"
        "b \<in> P \<or> collectBlockCells g x y (Some b) = []" by auto
      from collectBlockCells_start[OF inb b(1)] have "collectBlockCells g x y (Some b) \<noteq> []"
        by auto
      with b show ?thesis by auto
    qed
    with skip(2) show ?thesis by auto
  next
    case rest
    let ?cells = "collectBlockCells g x y (Some b)"
    from dropLoop_total[OF rest(4), of v g 0] rest(5)
    have "\<not> landsFree v g ?cells 1" by auto
    then obtain p where p: "p \<in> set ?cells"
      "\<not> (snd p + 1 < HEIGHT \<and> isEmptyCell v (gridAt g (fst p) (snd p + 1)))"
      unfolding landsFree_iff by blast
    from p(1) collect_all[OF one inb rest(2)] have "p \<in> idCells g b" by simp
    with p(2) have "restsOn v g b" unfolding restsOn_def cellAt_def by auto
    with rest show ?thesis by auto
  qed
qed

lemma sweep_stable:
  "gridOk v g \<Longrightarrow> set ps \<subseteq> board \<Longrightarrow>
   sweep v cm ps (g, P, mvs, False) = Some (g', P', mvs', False) \<Longrightarrow>
   P \<subseteq> P' \<and> (\<forall>b \<in> P' - P. restsOn v g b)
   \<and> (\<forall>p \<in> set ps. \<not> isEmptyCell v (cellAt g p) \<longrightarrow> (\<exists>b. blockId (cellAt g p) = Some b \<and> b \<in> P'))"
proof (induction ps arbitrary: P)
  case Nil
  then show ?case by simp
next
  case (Cons p ps)
  obtain x y where xy: "p = (x, y)" by (cases p)
  from Cons.prems(2) xy have inb: "inb x y" by (simp add: board_iff)
  from Cons.prems(1) have len: "length g = 200" by (simp add: gridOk_def)
  from gravityCell_progress[OF len, of v cm p P mvs False]
  obtain g1 P1 mvs1 moved1 where 1:
    "gravityCell v cm p (g, P, mvs, False) = Some (g1, P1, mvs1, moved1)" "length g1 = 200"
    by blast
  with Cons.prems(3) have 2: "sweep v cm ps (g1, P1, mvs1, moved1) = Some (g', P', mvs', False)"
    by simp
  from sweep_progress[OF 1(2), of v cm ps P1 mvs1 moved1] 2 have m1: "moved1 = False" by auto
  from gravityCell_stable[OF Cons.prems(1) inb 1(1)[unfolded xy m1]]
  have 3: "g1 = g" "mvs1 = mvs" "P \<subseteq> P1" "\<forall>b \<in> P1 - P. restsOn v g b"
    "\<not> isEmptyCell v (gridAt g x y) \<longrightarrow> (\<exists>b. blockId (gridAt g x y) = Some b \<and> b \<in> P1)"
    by simp_all
  from Cons.prems(2) have sub: "set ps \<subseteq> board" by simp
  from Cons.IH[OF Cons.prems(1) sub 2[unfolded 3 m1]]
  have 4: "P1 \<subseteq> P'" "\<forall>b \<in> P' - P1. restsOn v g b"
    "\<forall>p \<in> set ps. \<not> isEmptyCell v (cellAt g p) \<longrightarrow> (\<exists>b. blockId (cellAt g p) = Some b \<and> b \<in> P')"
    by simp_all
  have a: "P \<subseteq> P'" using 3(3) 4(1) by blast
  have b: "\<forall>b \<in> P' - P. restsOn v g b" using 3(4) 4(2) by blast
  have c: "\<not> isEmptyCell v (cellAt g p) \<longrightarrow> (\<exists>b. blockId (cellAt g p) = Some b \<and> b \<in> P')"
    using 3(5) 4(1) xy by auto
  from a b c 4(3) show ?case by simp
qed

lemma rests_not_blockCanDrop:
  assumes ok: "gridOk v g" and inb: "inb x y" and bid: "blockId (gridAt g x y) = Some b"
    and rests: "restsOn v g b"
  shows "\<not> blockCanDrop v g x y"
proof -
  from ok have len: "length g = 200" and one: "oneRow g" by (simp_all add: gridOk_def)
  let ?cells = "collectBlockCells g x y (Some b)"
  note all = collect_all[OF one inb bid]
  have start: "(x, y) \<in> idCells g b" using inb bid by (simp add: idCells_def)
  have inbs: "\<forall>(x, y) \<in> set ?cells. inb x y"
    unfolding all by (auto simp: idCells_def)
  have row: "\<forall>(x', y') \<in> set ?cells. y' = y"
  proof (clarify)
    fix x' y' assume "(x', y') \<in> set ?cells"
    then have "(x', y') \<in> idCells g b" unfolding all .
    from oneRow_row[OF one this start] show "y' = y" by simp
  qed
  have "landsFree v (clearCells v g ?cells) ?cells 1 = landsFree v g ?cells 1"
    by (rule landsFree_clearCells[OF len inbs row]) simp
  moreover from rests have "\<not> landsFree v g ?cells 1"
    unfolding restsOn_def landsFree_iff all cellAt_def by auto
  ultimately show ?thesis by (simp add: blockCanDrop_def bid)
qed

lemma gravityLoop_fixed:
  assumes ok: "gridOk v g" and run: "gravityLoop v cm g mvs ma = Some (g', mvs', ma')"
    and inb: "inb x y"
  shows "\<not> blockCanDrop v g' x y"
proof (cases "blockId (gridAt g' x y)")
  case None
  then show ?thesis by (simp add: blockCanDrop_def)
next
  case (Some b)
  note ok' = gravityLoop_gridOk[OF run ok]
  from ok have len: "length g = 200" by (simp add: gridOk_def)
  from gravityLoop_total[OF len, of v cm mvs ma] run
  obtain P where sw: "sweep v cm scanOrder (g', {}, mvs', False) = Some (g', P, mvs', False)"
    by auto
  have sub: "set scanOrder \<subseteq> board" by (simp add: set_scanOrder)
  note st = sweep_stable[OF ok' sub sw]
  from ok' inb have "(blockId (gridAt g' x y) = None) = isEmptyCell v (gridAt g' x y)"
    unfolding gridOk_def cellsOk_def by (metis cellAt_simp onBoard_simp)
  with Some have ne: "\<not> isEmptyCell v (cellAt g' (x, y))" by simp
  have "(x, y) \<in> set scanOrder" using inb by (simp add: set_scanOrder board_iff)
  with st ne have "\<exists>b. blockId (cellAt g' (x, y)) = Some b \<and> b \<in> P" by blast
  with Some have "b \<in> P" by simp
  with st have "restsOn v g' b" by simp
  from rests_not_blockCanDrop[OF ok' inb Some this] show ?thesis .
qed

lemma applyGravity_settles:
  assumes "selectedBlock s = None" "fallingAnimation s = None" "length (grid s) = 200"
  shows "\<exists>moved ms g'.
           applyGravity v True s = Some ((moved, ms), s\<lparr>grid := g'\<rparr>)
           \<and> applyGravity v False s = Some ((moved, []), s\<lparr>grid := g'\<rparr>)
           \<and> applyGravity v False (s\<lparr>grid := g'\<rparr>) = Some ((False, []), s\<lparr>grid := g'\<rparr>)
           \<and> length g' = 200
           \<and> movesSafe v (grid s) ms \<and> replayMoves v (grid s) ms = g'
           \<and> (cellsOk v (grid s) \<and> oneRow (grid s)
                \<longrightarrow> cellsOk v g' \<and> oneRow g' \<and> (\<forall>x y. inb x y \<longrightarrow> \<not> blockCanDrop v g' x y))"
proof -
  from gravityLoop_total[OF assms(3), of v True "[]" False]
  obtain g' ms moved P where run: "gravityLoop v True (grid s) [] False = Some (g', ms, moved)"
    and len': "length g' = 200"
    and last: "sweep v True scanOrder (g', {}, ms, False) = Some (g', P, ms, False)"
    by blast
  note run0 = gravityLoop_noLog[OF assms(3) run, of "[]"]
  from sweep_noLog[OF last, of "[]"]
  have "gravityLoop v False g' [] False = Some (g', [], False)"
    by (subst gravityLoop.simps) simp
  then have idem: "applyGravity v False (s\<lparr>grid := g'\<rparr>) = Some ((False, []), s\<lparr>grid := g'\<rparr>)"
    using assms(1,2) by (simp add: applyGravity_def)
  have a: "applyGravity v True s = Some ((moved, ms), s\<lparr>grid := g'\<rparr>)"
    using assms(1,2) run by (simp add: applyGravity_def)
  have b: "applyGravity v False s = Some ((moved, []), s\<lparr>grid := g'\<rparr>)"
    using assms(1,2) run0 by (simp add: applyGravity_def)
  note log = gravityLoop_logInv[OF run assms(3)]
  have stable: "cellsOk v g' \<and> oneRow g' \<and> (\<forall>x y. inb x y \<longrightarrow> \<not> blockCanDrop v g' x y)"
    if "cellsOk v (grid s) \<and> oneRow (grid s)"
  proof -
    from that assms(3) have ok: "gridOk v (grid s)" by (simp add: gridOk_def)
    from gravityLoop_gridOk[OF run ok] have "cellsOk v g'" "oneRow g'" by (simp_all add: gridOk_def)
    moreover have "\<forall>x y. inb x y \<longrightarrow> \<not> blockCanDrop v g' x y"
      using gravityLoop_fixed[OF ok run] by blast
    ultimately show ?thesis by simp
  qed
  from a b idem len' log stable show ?thesis
    by (intro exI[of _ moved] exI[of _ ms] exI[of _ g']) simp
qed

text \<open>A board with one block, \<open>(3, 10), (4, 10)\<close>, and nothing below it.\<close>

definition floatingRow :: "variant \<Rightarrow> state" where
  "floatingRow v =
     (initialState v [])
       \<lparr>grid := writeCells (grid (initialState v [])) [(3, 10), (4, 10)] 0 ''green'' (Some 1),
        blockCounter := 1\<rparr>"

lemma gridAt_oneBlock:
  assumes "\<forall>(x, y) \<in> set cells. inb x y" "inb x' y'"
  shows "gridAt (writeCells (grid (initialState v rs)) cells 0 col bid) x' y'
           = (if (x', y') \<in> set cells then makeCell col bid else makeCell (COLOR_BACKGROUND v) None)"
proof -
  have len: "length (grid (initialState v rs)) = 200" by (simp add: initialState_def)
  have c: "\<forall>(x, y) \<in> set cells. inb x (y + 0)" using assms(1) by simp
  from gridAt_writeCells[OF len c assms(2), of col bid] gridAt_initial[OF assms(2), of v rs]
  show ?thesis by simp
qed

lemma floatingRow_gridOk: "gridOk IndexJs (grid (floatingRow IndexJs))"
proof -
  let ?g = "grid (floatingRow IndexJs)"
  have at: "gridAt ?g x y = (if (x, y) \<in> {(3, 10), (4, 10)} then makeCell ''green'' (Some 1)
                             else makeCell ''black'' None)" if "inb x y" for x y
    using gridAt_oneBlock[of "[(3, 10), (4, 10)]" x y IndexJs "[]" "''green''" "Some 1"] that
    by (simp add: floatingRow_def inb_def)
  have ids: "idCells ?g b = (if b = 1 then {(3, 10), (4, 10)} else {})" for b
  proof -
    have "p \<in> idCells ?g b \<longleftrightarrow> p \<in> (if b = 1 then {(3, 10), (4, 10)} else {})" for p
    proof (cases p)
      case (Pair x y)
      show ?thesis
        unfolding Pair idCells_def using at[of x y]
        by (auto simp: makeCell_def inb_def)
    qed
    then show ?thesis by blast
  qed
  have "cellsOk IndexJs ?g"
    unfolding cellsOk_def
  proof (intro allI impI)
    fix p assume "onBoard p"
    then show "(blockId (cellAt ?g p) = None) = isEmptyCell IndexJs (cellAt ?g p)"
      using at[of "fst p" "snd p"] by (simp add: onBoard_def cellAt_def makeCell_def isEmptyCell_def)
  qed
  moreover have "oneRow ?g"
    unfolding oneRow_def ids
  proof (intro allI impI)
    fix b :: nat and p q :: pos
    assume h: "p \<in> (if b = 1 then {(3, 10), (4, 10)} else {})
             \<and> q \<in> (if b = 1 then {(3, 10), (4, 10)} else {})"
    then have b: "b = 1" by (auto split: if_splits)
    from h b have pq: "p \<in> {(3, 10), (4, 10)}" "q \<in> {(3, 10), (4, 10)}" by simp_all
    have "(x, snd p) \<in> {(3, 10), (4, 10)}" if "fst p \<le> x \<and> x \<le> fst q" for x :: int
      using that pq by auto
    with pq b show "snd p = snd q
        \<and> (\<forall>x. fst p \<le> x \<and> x \<le> fst q \<longrightarrow> (x, snd p) \<in> (if b = 1 then {(3, 10), (4, 10)} else {}))"
      by auto
  qed
  moreover have "length ?g = 200" by (simp add: floatingRow_def initialState_def)
  ultimately show ?thesis by (simp add: gridOk_def)
qed




end
